theory Spec2Isabelle
  imports
    Complex_Main
    "HOL-Library.Char_ord"
    "HOL-Library.List_Lexorder"
    "HOL-Library.Sublist"
begin

section \<open>Strings\<close>

text \<open>
  Python strings are modelled as \<^typ>\<open>string\<close>: a list of characters, each a code
  point below 256.  A value that may be Python's \<^verbatim>\<open>None\<close> is an option.

  \<^verbatim>\<open>str.rstrip()\<close> without argument removes the trailing characters for which
  \<^verbatim>\<open>str.isspace\<close> holds.  Below 256 these are tab, line feed, vertical tab, form
  feed, carriage return, the four separators 0x1C to 0x1F, space, next line (0x85) and
  no-break space (0xA0).
\<close>

definition isspace :: "char \<Rightarrow> bool" where
  "isspace c = (of_char c \<in> {9, 10, 11, 12, 13, 28, 29, 30, 31, 32, 133, 160 :: nat})"

definition rstrip :: "string \<Rightarrow> string" where
  "rstrip s = rev (dropWhile isspace (rev s))"

abbreviation NL :: string where
  "NL \<equiv> [CHR 0x0A]"

section \<open>Output comparison\<close>

text \<open>
  \<^verbatim>\<open>
  def normalize_output(output):
      if output is None:
          return ""
      return output.rstrip()
  \<close>
\<close>

definition normalize_output :: "string option \<Rightarrow> string" where
  "normalize_output output = (case output of None \<Rightarrow> [] | Some s \<Rightarrow> rstrip s)"

text \<open>
  \<^verbatim>\<open>
  def compare_outputs(actual, expected):
      actual_normalized = normalize_output(actual)
      expected_normalized = normalize_output(expected)
      if actual_normalized == expected_normalized:
          return True, "Output matches expected result"
      else:
          return False, f"Output mismatch\nExpected:\n{expected_normalized}\n\nGot:\n{actual_normalized}"
  \<close>
\<close>

definition compare_outputs :: "string option \<Rightarrow> string option \<Rightarrow> bool \<times> string" where
  "compare_outputs actual expected =
     (let actual_normalized = normalize_output actual;
          expected_normalized = normalize_output expected
      in if actual_normalized = expected_normalized
         then (True, ''Output matches expected result'')
         else (False, ''Output mismatch'' @ NL @ ''Expected:'' @ NL @ expected_normalized
                        @ NL @ NL @ ''Got:'' @ NL @ actual_normalized))"

section \<open>Execution client: decoding the service response\<close>

text \<open>
  The body of a successful response is a JSON object with an optional \<^verbatim>\<open>run\<close> and an
  optional \<^verbatim>\<open>compile\<close> section, each with the keys \<^verbatim>\<open>stdout\<close>, \<^verbatim>\<open>stderr\<close> (strings)
  and \<^verbatim>\<open>code\<close> (an integer).  A key may be absent or hold JSON \<^verbatim>\<open>null\<close>, which
  \<^verbatim>\<open>dict.get\<close> tells apart: the default is returned for an absent key only.
\<close>

datatype 'a json_field = Absent | Null | Val 'a

fun dict_get :: "'a json_field \<Rightarrow> 'a option \<Rightarrow> 'a option" where
  "dict_get Absent dflt = dflt"
| "dict_get Null dflt = None"
| "dict_get (Val v) dflt = Some v"

record section_data =
  sec_stdout :: "string json_field"
  sec_stderr :: "string json_field"
  sec_code :: "int json_field"

record response_data =
  run :: "section_data option"
  compile :: "section_data option"

text \<open>The dictionary that \<^verbatim>\<open>run_test_case\<close> returns.\<close>

record outcome =
  stdout :: "string option"
  stderr :: "string option"
  compile_error :: "string option"
  runtime_error :: "string option"
  success :: bool

text \<open>Truth value of an optional string: \<^verbatim>\<open>None\<close> and \<^verbatim>\<open>""\<close> are false.\<close>

definition truthy :: "string option \<Rightarrow> bool" where
  "truthy v = (case v of None \<Rightarrow> False | Some s \<Rightarrow> s \<noteq> [])"

text \<open>\<^verbatim>\<open>f"{exit_code}"\<close>: the decimal numeral of an integer, \<^verbatim>\<open>None\<close> for \<^verbatim>\<open>None\<close>.\<close>

fun str_nat :: "nat \<Rightarrow> string" where
  "str_nat n =
     (if n < 10 then [char_of (48 + n)]
      else str_nat (n div 10) @ [char_of (48 + n mod 10)])"

declare str_nat.simps [simp del]

definition str_int :: "int \<Rightarrow> string" where
  "str_int i = (if i < 0 then CHR ''-'' # str_nat (nat (- i)) else str_nat (nat i))"

definition format_code :: "int option \<Rightarrow> string" where
  "format_code exit_code = (case exit_code of None \<Rightarrow> ''None'' | Some i \<Rightarrow> str_int i)"

text \<open>
  Lines 64 to 102 of \<^verbatim>\<open>run_test_case\<close>, in the order of the source: the initial
  dictionary, the \<^verbatim>\<open>run\<close> section, the \<^verbatim>\<open>compile\<close> section, the missing \<^verbatim>\<open>run\<close>
  section.
  \<^verbatim>\<open>
  if 'run' in result_data:
      run_data = result_data['run']
      result['stdout'] = run_data.get('stdout', '')
      result['stderr'] = run_data.get('stderr', '')
      exit_code = run_data.get('code', -1)
      result['success'] = exit_code == 0
      if exit_code != 0 and not result['stderr']:
          result['runtime_error'] = f"Process exited with code {exit_code}"
          result['success'] = False
  \<close>
\<close>

definition initial_result :: outcome where
  "initial_result =
     \<lparr>stdout = Some [], stderr = Some [], compile_error = None, runtime_error = None,
      success = False\<rparr>"

definition process_run :: "response_data \<Rightarrow> outcome \<Rightarrow> outcome" where
  "process_run result_data result =
     (case run result_data of
        None \<Rightarrow> result
      | Some run_data \<Rightarrow>
          (let result = result\<lparr>stdout := dict_get (sec_stdout run_data) (Some [])\<rparr>;
               result = result\<lparr>stderr := dict_get (sec_stderr run_data) (Some [])\<rparr>;
               exit_code = dict_get (sec_code run_data) (Some (- 1));
               result = result\<lparr>success := (exit_code = Some 0)\<rparr>
           in if exit_code \<noteq> Some 0 \<and> \<not> truthy (stderr result)
              then result\<lparr>runtime_error :=
                              Some (''Process exited with code '' @ format_code exit_code),
                            success := False\<rparr>
              else result))"

text \<open>
  \<^verbatim>\<open>
  if 'compile' in result_data:
      compile_data = result_data['compile']
      if compile_data.get('stderr'):
          result['compile_error'] = compile_data['stderr']
          result['success'] = False
      elif compile_data.get('code', 0) != 0:
          result['compile_error'] = compile_data.get('stdout', '') or 'Compilation failed'
          result['success'] = False
  \<close>
\<close>

definition process_compile :: "response_data \<Rightarrow> outcome \<Rightarrow> outcome" where
  "process_compile result_data result =
     (case compile result_data of
        None \<Rightarrow> result
      | Some compile_data \<Rightarrow>
          if truthy (dict_get (sec_stderr compile_data) None)
          then result\<lparr>compile_error := dict_get (sec_stderr compile_data) None,
                        success := False\<rparr>
          else if dict_get (sec_code compile_data) (Some 0) \<noteq> Some 0
          then result\<lparr>compile_error :=
                          (let out = dict_get (sec_stdout compile_data) (Some [])
                           in if truthy out then out else Some ''Compilation failed''),
                        success := False\<rparr>
          else result)"

text \<open>
  \<^verbatim>\<open>
  if 'run' not in result_data:
      result['runtime_error'] = 'No execution output received'
      result['success'] = False
  \<close>
\<close>

definition process_no_run :: "response_data \<Rightarrow> outcome \<Rightarrow> outcome" where
  "process_no_run result_data result =
     (if run result_data = None
      then result\<lparr>runtime_error := Some ''No execution output received'', success := False\<rparr>
      else result)"

definition process_output :: "response_data \<Rightarrow> outcome" where
  "process_output result_data =
     process_no_run result_data
       (process_compile result_data (process_run result_data initial_result))"

section \<open>Execution client: one request and the retry loop\<close>

text \<open>
  What the service does is the environment of \<^verbatim>\<open>run_test_case\<close>: for each attempt,
  either \<^verbatim>\<open>session.post\<close> raises, or a response arrives with its HTTP status, the
  text of the error that \<^verbatim>\<open>raise_for_status\<close> would raise for it, and the result of
  \<^verbatim>\<open>response.json()\<close>.  The handlers tell \<^verbatim>\<open>aiohttp.ClientError\<close> from every other
  exception (a timeout of the event loop is of the second kind); the string is
  \<^verbatim>\<open>str(e)\<close>.
\<close>

datatype exn = ClientError string | OtherException string

datatype attempt_event =
    PostRaises exn
  | Response int string "exn + response_data"

text \<open>The error dictionaries of the source differ in the runtime error only.\<close>

definition failed :: "string \<Rightarrow> outcome" where
  "failed msg =
     \<lparr>stdout = Some [], stderr = Some [], compile_error = None, runtime_error = Some msg,
      success = False\<rparr>"

text \<open>\<^verbatim>\<open>str.lower\<close> on code points below 256, and the test of the first handler.\<close>

definition lower_char :: "char \<Rightarrow> char" where
  "lower_char c =
     (let n = (of_char c :: nat)
      in if (65 \<le> n \<and> n \<le> 90) \<or> (192 \<le> n \<and> n \<le> 222 \<and> n \<noteq> 215)
         then char_of (n + 32) else c)"

definition lower :: "string \<Rightarrow> string" where
  "lower s = map lower_char s"

definition is_rate_limit :: "string \<Rightarrow> bool" where
  "is_rate_limit msg =
     (let error_str = lower msg
      in sublist ''rate limit'' error_str \<or> sublist ''ratelimit'' error_str
         \<or> sublist ''429'' error_str \<or> sublist ''too many requests'' error_str)"

text \<open>
  One iteration of \<^verbatim>\<open>for attempt in range(max_retries + 1)\<close> either sleeps and
  continues with the next attempt, or returns.  \<^verbatim>\<open>max_retries\<close> is any integer, and
  \<^verbatim>\<open>retry_delay\<close> a whole number of seconds, as the default \<^verbatim>\<open>1\<close> is.
\<close>

datatype step = Continue int | Return outcome

definition wait_time :: "int \<Rightarrow> nat \<Rightarrow> int" where
  "wait_time retry_delay attempt = retry_delay * 2 ^ attempt"

fun handle_exn :: "int \<Rightarrow> int \<Rightarrow> nat \<Rightarrow> exn \<Rightarrow> step" where
  "handle_exn max_retries retry_delay attempt (ClientError msg) =
     (if is_rate_limit msg \<and> int attempt < max_retries
      then Continue (wait_time retry_delay attempt)
      else Return (failed (''HTTP error: '' @ msg)))"
| "handle_exn max_retries retry_delay attempt (OtherException msg) = Return (failed msg)"

text \<open>
  \<^verbatim>\<open>raise_for_status\<close> raises \<^verbatim>\<open>ClientResponseError\<close>, a \<^verbatim>\<open>ClientError\<close>, when the
  status is 400 or more.
\<close>

fun attempt_step :: "int \<Rightarrow> int \<Rightarrow> nat \<Rightarrow> attempt_event \<Rightarrow> step" where
  "attempt_step max_retries retry_delay attempt (PostRaises e) =
     handle_exn max_retries retry_delay attempt e"
| "attempt_step max_retries retry_delay attempt (Response status msg body) =
     (if status = 429
      then (if int attempt < max_retries
            then Continue (wait_time retry_delay attempt)
            else Return (failed ''Rate limit exceeded''))
      else if 400 \<le> status
      then handle_exn max_retries retry_delay attempt (ClientError msg)
      else (case body of
              Inl e \<Rightarrow> handle_exn max_retries retry_delay attempt e
            | Inr result_data \<Rightarrow> Return (process_output result_data)))"

text \<open>
  The loop, with the number of iterations that remain.  The result is the returned
  dictionary and the arguments of the calls of \<^verbatim>\<open>asyncio.sleep\<close>, in order.
\<close>

fun attempts :: "(nat \<Rightarrow> attempt_event) \<Rightarrow> int \<Rightarrow> int \<Rightarrow> nat \<Rightarrow> nat \<Rightarrow> outcome \<times> int list" where
  "attempts srv max_retries retry_delay attempt 0 =
     (failed ''Failed to execute after retries'', [])"
| "attempts srv max_retries retry_delay attempt (Suc remaining) =
     (case attempt_step max_retries retry_delay attempt (srv attempt) of
        Return result \<Rightarrow> (result, [])
      | Continue wait \<Rightarrow>
          (case attempts srv max_retries retry_delay (Suc attempt) remaining of
             (result, sleeps) \<Rightarrow> (result, wait # sleeps)))"

definition run_test_case :: "(nat \<Rightarrow> attempt_event) \<Rightarrow> int \<Rightarrow> int \<Rightarrow> outcome \<times> int list" where
  "run_test_case srv max_retries retry_delay =
     attempts srv max_retries retry_delay 0 (nat (max_retries + 1))"

section \<open>Test-case discovery\<close>

text \<open>
  The directory is given by its listing, \<open>None\<close> when it does not exist.  All files of
  a run live in it, so a path \<^verbatim>\<open>test_cases_dir / name\<close> is represented by \<open>name\<close>, and
  \<^verbatim>\<open>output_file.exists()\<close> is membership in the listing.

  \<^verbatim>\<open>glob("input*.txt")\<close> keeps the names that start with \<^verbatim>\<open>input\<close> and end with
  \<^verbatim>\<open>.txt\<close>, the star matching any text between them.
\<close>

definition glob_input_txt :: "string \<Rightarrow> bool" where
  "glob_input_txt name =
     (prefix ''input'' name \<and> suffix ''.txt'' name \<and> 9 \<le> length name)"

text \<open>
  \<^verbatim>\<open>Path.stem\<close>: the name without its last suffix; the suffix starts at the last
  dot, unless that dot is the first or the last character of the name.
\<close>

definition stem :: "string \<Rightarrow> string" where
  "stem name =
     (let after_dot = takeWhile (\<lambda>c. c \<noteq> CHR ''.'') (rev name)
      in if CHR ''.'' \<in> set name \<and> after_dot \<noteq> [] \<and> length after_dot + 1 < length name
         then take (length name - length after_dot - 1) name
         else name)"

text \<open>
  \<^verbatim>\<open>s.replace(old, new)\<close> for a non-empty \<open>old\<close>: every occurrence, scanning from the
  left and skipping over a replaced one.
\<close>

function str_replace :: "string \<Rightarrow> string \<Rightarrow> string \<Rightarrow> string" where
  "str_replace old new [] = []"
| "str_replace old new (c # cs) =
     (if old \<noteq> [] \<and> prefix old (c # cs)
      then new @ str_replace old new (drop (length old) (c # cs))
      else c # str_replace old new cs)"
  by pat_completeness auto
termination
  by (relation "measure (\<lambda>(old, new, s). length s)") auto

definition test_num :: "string \<Rightarrow> string" where
  "test_num input_file = str_replace ''input'' [] (stem input_file)"

definition output_file_for :: "string \<Rightarrow> string" where
  "output_file_for input_file = ''output'' @ test_num input_file @ ''.txt''"

text \<open>
  The loop over the input files.  The second component holds, for each line
  \<^verbatim>\<open>Warning: {output_file} not found for {input_file}\<close> that is printed, the two paths.
  \<^verbatim>\<open>
  for input_file in input_files:
      test_num = input_file.stem.replace("input", "")
      output_file = test_cases_dir / f"output{test_num}.txt"
      if output_file.exists():
          test_pairs.append((input_file, output_file))
      else:
          print(f"Warning: {output_file} not found for {input_file}")
  \<close>
\<close>

fun pair_files :: "string list \<Rightarrow> string list \<Rightarrow> (string \<times> string) list \<times> (string \<times> string) list" where
  "pair_files entries [] = ([], [])"
| "pair_files entries (input_file # input_files) =
     (case pair_files entries input_files of
        (test_pairs, warnings) \<Rightarrow>
          (let output_file = output_file_for input_file
           in if output_file \<in> set entries
              then ((input_file, output_file) # test_pairs, warnings)
              else (test_pairs, (output_file, input_file) # warnings)))"

text \<open>
  \<^verbatim>\<open>sorted\<close> orders the paths of one directory by their names, as strings: by code
  point, a proper prefix first.
\<close>

definition get_test_case_files :: "string list option \<Rightarrow> (string \<times> string) list \<times> (string \<times> string) list" where
  "get_test_case_files dir =
     (case dir of
        None \<Rightarrow> ([], [])
      | Some entries \<Rightarrow>
          (let input_files = sort (filter glob_input_txt entries)
           in pair_files entries input_files))"

section \<open>Case runner\<close>

text \<open>
  The dictionary that \<^verbatim>\<open>process_single_test_case\<close> returns: the outcome of the
  execution and the keys added to it.  The two wall-clock measurements
  (\<^verbatim>\<open>execution_time\<close>, \<^verbatim>\<open>api_execution_time\<close>) are left out.
\<close>

record judged = outcome +
  expected_output :: string
  output_match :: bool
  comparison_msg :: string
  test_name :: string
  input_file :: string
  expected_output_file :: string
  test_index :: nat
  test_input :: string
  overall_success :: bool

text \<open>\<^verbatim>\<open>open(path, 'r').read()\<close> returns the text or raises.\<close>

datatype os_error = OSError string

text \<open>
  The files are read first, outside any handler; then \<^verbatim>\<open>run_test_case\<close> is called with
  its default \<^verbatim>\<open>max_retries=3\<close> and \<^verbatim>\<open>retry_delay=1\<close>, and its result is compared and
  extended.  The semaphore and the spacing of the requests, which decide when the call
  happens and not what it returns, are the subject of the last section.
\<close>

definition process_single_test_case ::
  "(string \<Rightarrow> os_error + string) \<Rightarrow> (nat \<Rightarrow> attempt_event) \<Rightarrow> string \<Rightarrow> string \<Rightarrow> nat
     \<Rightarrow> os_error + judged" where
  "process_single_test_case read_file srv inp outp idx =
     (case read_file inp of
        Inl e \<Rightarrow> Inl e
      | Inr input_text \<Rightarrow>
          (case read_file outp of
             Inl e \<Rightarrow> Inl e
           | Inr expected \<Rightarrow>
               (let result = fst (run_test_case srv 3 1);
                    cmp = compare_outputs (stdout result) (Some expected)
                in Inr \<lparr>stdout = stdout result, stderr = stderr result,
                         compile_error = compile_error result,
                         runtime_error = runtime_error result,
                         success = success result,
                         expected_output = expected,
                         output_match = fst cmp,
                         comparison_msg = snd cmp,
                         test_name = stem inp,
                         input_file = inp,
                         expected_output_file = outp,
                         test_index = idx,
                         test_input = input_text,
                         overall_success =
                           (success result \<and> fst cmp \<and> \<not> truthy (compile_error result))\<rparr>)))"

section \<open>Orchestrator\<close>

text \<open>
  \<^verbatim>\<open>asyncio.gather(*tasks)\<close> with the tasks' results \<open>outs\<close> and the order \<open>order\<close> in
  which the tasks complete: a result is stored at the position of its task; the first
  task that completes with an exception makes \<open>gather\<close> raise it; once every task has
  completed, the list of results is returned.  \<open>None\<close>: some task never completes,
  and \<open>gather\<close> does not return.
\<close>

fun gather_loop :: "nat list \<Rightarrow> ('e + 'a) list \<Rightarrow> 'a option list \<Rightarrow> ('e + 'a list) option" where
  "gather_loop [] outs slots =
     (if list_all (\<lambda>slot. slot \<noteq> None) slots then Some (Inr (map the slots)) else None)"
| "gather_loop (i # order) outs slots =
     (if i < length outs
      then (case outs ! i of
              Inl e \<Rightarrow> Some (Inl e)
            | Inr r \<Rightarrow> gather_loop order outs (slots[i := Some r]))
      else gather_loop order outs slots)"

definition gather :: "nat list \<Rightarrow> ('e + 'a) list \<Rightarrow> ('e + 'a list) option" where
  "gather order outs = gather_loop order outs (replicate (length outs) None)"

text \<open>
  \<^verbatim>\<open>run_test_cases_from_files\<close> returns \<^verbatim>\<open>[]\<close> when no pair is found, and otherwise the
  pair of the sorted results and the total wall-clock time, which is left out.  The
  probe of the service chooses the URL, the number of permits and the spacing; the
  service's answers are the parameter \<open>srv\<close>, by test index and attempt.
  \<^verbatim>\<open>
  tasks = [process_single_test_case(session, ..., input_file, expected_output_file, i, ...)
           for i, (input_file, expected_output_file) in enumerate(test_pairs, 1)]
  results = await asyncio.gather(*tasks)
  results.sort(key=lambda x: x['test_index'])
  \<close>
\<close>

datatype run_result = NoTestCases | Results "judged list"

fun results_of :: "run_result \<Rightarrow> judged list" where
  "results_of NoTestCases = []"
| "results_of (Results results) = results"

definition make_tasks ::
  "(string \<Rightarrow> os_error + string) \<Rightarrow> (nat \<Rightarrow> nat \<Rightarrow> attempt_event) \<Rightarrow> (string \<times> string) list
     \<Rightarrow> (os_error + judged) list" where
  "make_tasks read_file srv test_pairs =
     map (\<lambda>(i, (inp, outp)). process_single_test_case read_file (srv i) inp outp i)
       (enumerate 1 test_pairs)"

definition run_test_cases_from_files ::
  "string list option \<Rightarrow> (string \<Rightarrow> os_error + string) \<Rightarrow> (nat \<Rightarrow> nat \<Rightarrow> attempt_event) \<Rightarrow> nat list
     \<Rightarrow> (os_error + run_result) option" where
  "run_test_cases_from_files dir read_file srv order =
     (let test_pairs = fst (get_test_case_files dir)
      in if test_pairs = [] then Some (Inr NoTestCases)
         else (case gather order (make_tasks read_file srv test_pairs) of
                 None \<Rightarrow> None
               | Some (Inl e) \<Rightarrow> Some (Inl e)
               | Some (Inr results) \<Rightarrow> Some (Inr (Results (sort_key test_index results)))))"

section \<open>The semaphore and the spacing of requests\<close>

text \<open>
  The tasks of one run share an \<^verbatim>\<open>asyncio.Semaphore(max_concurrent)\<close> and the cell
  \<^verbatim>\<open>last_request_time\<close>.  A task gives up control at an \<^verbatim>\<open>await\<close> only, so lines 260
  to 273 of \<^verbatim>\<open>process_single_test_case\<close> are three atomic steps:
  \<^item> \<open>Enter\<close>: the semaphore is acquired (possible while a permit is free), the clock is
    read and compared with \<^verbatim>\<open>last_request_time[0]\<close>; the task then either sleeps for
    \<^verbatim>\<open>min_delay - time_since_last\<close> or calls \<^verbatim>\<open>run_test_case\<close> at once;
  \<^item> \<open>Wake\<close>: the sleep is over and \<^verbatim>\<open>run_test_case\<close> is called, with no second check;
  \<^item> \<open>Complete\<close>: \<^verbatim>\<open>run_test_case\<close> has returned, \<^verbatim>\<open>last_request_time[0]\<close> is set to
    the clock and the semaphore is released.
  \<open>Advance\<close> lets time pass.  The state records, for every call of \<^verbatim>\<open>run_test_case\<close>,
  the task and the time of the call.
\<close>

datatype task_state = Pending | Sleeping rat | InFlight | Finished

record sched =
  now :: rat
  permits :: nat
  last_request_time :: "rat option"
  tasks :: "task_state list"
  dispatched :: "(nat \<times> rat) list"

datatype event = Advance rat | Enter nat | Wake nat | Complete nat

definition initial_sched :: "nat \<Rightarrow> nat \<Rightarrow> sched" where
  "initial_sched max_concurrent n =
     \<lparr>now = 0, permits = max_concurrent, last_request_time = None,
      tasks = replicate n Pending, dispatched = []\<rparr>"

definition dispatch :: "nat \<Rightarrow> sched \<Rightarrow> sched" where
  "dispatch i s =
     s\<lparr>tasks := (tasks s)[i := InFlight], dispatched := dispatched s @ [(i, now s)]\<rparr>"

fun sched_step :: "rat \<Rightarrow> event \<Rightarrow> sched \<Rightarrow> sched option" where
  "sched_step min_delay (Advance d) s =
     (if 0 \<le> d then Some (s\<lparr>now := now s + d\<rparr>) else None)"
| "sched_step min_delay (Enter i) s =
     (if i < length (tasks s) \<and> tasks s ! i = Pending \<and> 0 < permits s
      then (let s = s\<lparr>permits := permits s - 1\<rparr>;
                current_time = now s
            in case last_request_time s of
                 None \<Rightarrow> Some (dispatch i s)
               | Some last_time \<Rightarrow>
                   (let time_since_last = current_time - last_time
                    in if time_since_last < min_delay
                       then Some (s\<lparr>tasks := (tasks s)
                                     [i := Sleeping (current_time + (min_delay - time_since_last))]\<rparr>)
                       else Some (dispatch i s)))
      else None)"
| "sched_step min_delay (Wake i) s =
     (if i < length (tasks s)
      then (case tasks s ! i of
              Sleeping until \<Rightarrow> if until \<le> now s then Some (dispatch i s) else None
            | _ \<Rightarrow> None)
      else None)"
| "sched_step min_delay (Complete i) s =
     (if i < length (tasks s) \<and> tasks s ! i = InFlight
      then Some (s\<lparr>tasks := (tasks s)[i := Finished],
                   last_request_time := Some (now s),
                   permits := permits s + 1\<rparr>)
      else None)"

fun sched_run :: "rat \<Rightarrow> event list \<Rightarrow> sched \<Rightarrow> sched option" where
  "sched_run min_delay [] s = Some s"
| "sched_run min_delay (e # es) s =
     (case sched_step min_delay e s of None \<Rightarrow> None | Some s' \<Rightarrow> sched_run min_delay es s')"

text \<open>The tasks that hold a permit.\<close>

definition holding :: "sched \<Rightarrow> nat" where
  "holding s = length (filter (\<lambda>t. t \<noteq> Pending \<and> t \<noteq> Finished) (tasks s))"

section \<open>Notions used to state the properties\<close>

text \<open>
  A rate-limit signal: HTTP status 429, or an \<^verbatim>\<open>aiohttp.ClientError\<close> whose message
  indicates rate limiting, wherever in the request it is raised.
\<close>

fun rate_limit_signal :: "attempt_event \<Rightarrow> bool" where
  "rate_limit_signal (PostRaises (ClientError msg)) = is_rate_limit msg"
| "rate_limit_signal (PostRaises (OtherException msg)) = False"
| "rate_limit_signal (Response status msg body) =
     (status = 429 \<or>
      (if 400 \<le> status then is_rate_limit msg
       else (case body of Inl (ClientError m) \<Rightarrow> is_rate_limit m | _ \<Rightarrow> False)))"

text \<open>The attempt brings the decoded body \<open>d\<close> of a response that is not an error.\<close>

fun delivers :: "attempt_event \<Rightarrow> response_data \<Rightarrow> bool" where
  "delivers (Response status msg (Inr d')) d = (status \<noteq> 429 \<and> status < 400 \<and> d' = d)"
| "delivers _ d = False"

text \<open>
  The service answers attempt \<open>k\<close> with the body \<open>d\<close>, after \<open>k\<close> rate-limited attempts
  and within the allowed retries.
\<close>

definition answered :: "(nat \<Rightarrow> attempt_event) \<Rightarrow> int \<Rightarrow> nat \<Rightarrow> response_data \<Rightarrow> bool" where
  "answered srv max_retries k d =
     (int k \<le> max_retries \<and> (\<forall>i<k. rate_limit_signal (srv i)) \<and> delivers (srv k) d)"

text \<open>The text of a field, empty when the key is absent or null.\<close>

definition field_text :: "string json_field \<Rightarrow> string" where
  "field_text f = (case f of Val s \<Rightarrow> s | _ \<Rightarrow> [])"

text \<open>
  The classification of a \<^verbatim>\<open>compile\<close> section in the words of the specification: it
  is a compile error when its stderr is non-empty or its exit code is nonzero, and the
  message is the stderr, else the stdout, else a generic text.
\<close>

definition spec_compile_failed :: "section_data \<Rightarrow> bool" where
  "spec_compile_failed c =
     (field_text (sec_stderr c) \<noteq> [] \<or> (case sec_code c of Val n \<Rightarrow> n \<noteq> 0 | _ \<Rightarrow> False))"

definition spec_compile_message :: "section_data \<Rightarrow> string" where
  "spec_compile_message c =
     (if field_text (sec_stderr c) \<noteq> [] then field_text (sec_stderr c)
      else if field_text (sec_stdout c) \<noteq> [] then field_text (sec_stdout c)
      else ''Compilation failed'')"

text \<open>
  The number \<open>N\<close> of a test case, for the ordering that the specification states: the
  decimal value of the text that \<^verbatim>\<open>get_test_case_files\<close> takes for the test number.
\<close>

definition case_number :: "string \<Rightarrow> nat" where
  "case_number name =
     foldl (\<lambda>n c. 10 * n + (of_char c - 48)) 0 (test_num name)"

text \<open>
  The message of the \<^verbatim>\<open>aiohttp.ClientError\<close> that an attempt raises, if it raises one:
  in \<^verbatim>\<open>session.post\<close>, in \<^verbatim>\<open>raise_for_status\<close> or in \<^verbatim>\<open>response.json()\<close>.
\<close>

fun client_error_of :: "attempt_event \<Rightarrow> string option" where
  "client_error_of (PostRaises (ClientError msg)) = Some msg"
| "client_error_of (PostRaises (OtherException msg)) = None"
| "client_error_of (Response status msg body) =
     (if status = 429 then None
      else if 400 \<le> status then Some msg
      else (case body of Inl (ClientError m) \<Rightarrow> Some m | _ \<Rightarrow> None))"


section \<open>Concrete services and responses\<close>

definition responses :: "attempt_event list \<Rightarrow> nat \<Rightarrow> attempt_event" where
  "responses evs attempt =
     (if attempt < length evs then evs ! attempt
      else PostRaises (OtherException ''Connection closed''))"

definition hello_body :: response_data where
  "hello_body =
     \<lparr>run = Some \<lparr>sec_stdout = Val (''Hello'' @ NL), sec_stderr = Val [], sec_code = Val 0\<rparr>,
      compile = None\<rparr>"

definition too_many_requests :: attempt_event where
  "too_many_requests =
     Response 429 ''429, message=Too Many Requests'' (Inr \<lparr>run = None, compile = None\<rparr>)"



definition refused_then_served :: "nat \<Rightarrow> attempt_event" where
  "refused_then_served =
     responses [PostRaises (ClientError ''Cannot connect to host localhost:4290 ssl:default''),
                Response 200 [] (Inr hello_body)]"

definition server_error :: "nat \<Rightarrow> attempt_event" where
  "server_error =
     responses [Response 500 ''500, message=Internal Server Error''
                  (Inr \<lparr>run = None, compile = None\<rparr>)]"

definition syntax_error_body :: response_data where
  "syntax_error_body =
     \<lparr>run = Some \<lparr>sec_stdout = Val ''42'', sec_stderr = Val [], sec_code = Val 0\<rparr>,
      compile = Some \<lparr>sec_stdout = Val [], sec_stderr = Val ''syntax error'', sec_code = Val 1\<rparr>\<rparr>"

definition segfault_body :: response_data where
  "segfault_body =
     \<lparr>run = Some \<lparr>sec_stdout = Val [], sec_stderr = Val [], sec_code = Val 139\<rparr>,
      compile = None\<rparr>"

definition syntax_error_service :: "nat \<Rightarrow> attempt_event" where
  "syntax_error_service = responses [Response 200 [] (Inr syntax_error_body)]"

definition segfault_service :: "nat \<Rightarrow> attempt_event" where
  "segfault_service = responses [too_many_requests, Response 200 [] (Inr segfault_body)]"

definition no_run_service :: "nat \<Rightarrow> attempt_event" where
  "no_run_service = responses [Response 200 [] (Inr \<lparr>run = None, compile = None\<rparr>)]"

text \<open>A file system given by the texts of its readable files.\<close>

definition file_table :: "(string \<times> string) list \<Rightarrow> string \<Rightarrow> os_error + string" where
  "file_table files name =
     (case map_of files name of
        Some content \<Rightarrow> Inr content
      | None \<Rightarrow> Inl (OSError (''[Errno 2] No such file or directory: '' @ name)))"

section \<open>Concrete directories\<close>

definition dir_two_and_ten :: "string list" where
  "dir_two_and_ten = [''input2.txt'', ''output2.txt'', ''input10.txt'', ''output10.txt'']"

definition dir_missing_output3 :: "string list" where
  "dir_missing_output3 =
     [''input1.txt'', ''input2.txt'', ''input3.txt'', ''output1.txt'', ''output2.txt'']"

section \<open>A concrete run\<close>

definition two_cases_dir :: "string list" where
  "two_cases_dir = [''input1.txt'', ''output1.txt'', ''input2.txt'', ''output2.txt'']"

definition two_cases_files :: "string \<Rightarrow> os_error + string" where
  "two_cases_files =
     file_table [(''input1.txt'', ''1''), (''output1.txt'', ''Hello''),
                 (''input2.txt'', ''2''), (''output2.txt'', ''Hello Hello'')]"

definition unreadable_input2 :: "string \<Rightarrow> os_error + string" where
  "unreadable_input2 name =
     (if name = ''input2.txt''
      then Inl (OSError ''[Errno 13] Permission denied: input2.txt'')
      else two_cases_files name)"

definition hello_service :: "nat \<Rightarrow> nat \<Rightarrow> attempt_event" where
  "hello_service idx = responses [Response 200 [] (Inr hello_body)]"

text \<open>
  The calls of a log are spaced: each is at least \<open>d\<close> after the one before it.  For
  \<open>0 \<le> d\<close> the times are then in ascending order, and any two of them are at least
  \<open>d\<close> apart.
\<close>

fun spaced :: "rat \<Rightarrow> rat list \<Rightarrow> bool" where
  "spaced d [] = True"
| "spaced d [t] = True"
| "spaced d (t # u # ts) = (d \<le> u - t \<and> spaced d (u # ts))"

definition idle :: "task_state \<Rightarrow> bool" where
  "idle t = (t = Pending \<or> t = Finished)"

text \<open>
  What holds of every schedule with one permit: the log is spaced and in the past; a
  sleeping task wakes late enough; and either the permit is free, no task is between
  \<open>Enter\<close> and \<open>Complete\<close> and \<^verbatim>\<open>last_request_time[0]\<close> is not before the last call, or the
  permit is taken by exactly one task.
\<close>

definition exclusive_inv :: "rat \<Rightarrow> sched \<Rightarrow> bool" where
  "exclusive_inv min_delay s =
     (let log = map snd (dispatched s)
      in spaced min_delay log
         \<and> (\<forall>t \<in> set log. t \<le> now s)
         \<and> (\<forall>i < length (tasks s). \<forall>u. tasks s ! i = Sleeping u \<longrightarrow>
               log = [] \<or> min_delay \<le> u - last log)
         \<and> ((permits s = 1 \<and> (\<forall>i < length (tasks s). idle (tasks s ! i))
              \<and> (log = [] \<or> (\<exists>l. last_request_time s = Some l \<and> last log \<le> l \<and> l \<le> now s)))
            \<or> (permits s = 0
                \<and> (\<exists>i < length (tasks s). \<not> idle (tasks s ! i)
                      \<and> (\<forall>j < length (tasks s). j \<noteq> i \<longrightarrow> idle (tasks s ! j))))))"



definition output1_is_directory :: "string \<Rightarrow> os_error + string" where
  "output1_is_directory name =
     (if name = ''output1.txt''
      then Inl (OSError ''[Errno 21] Is a directory: output1.txt'')
      else two_cases_files name)"

section \<open>Lemmas on trimming and on the retry loop\<close>

lemma rstrip_append_spaces: "\<forall>c \<in> set ws. isspace c \<Longrightarrow> rstrip (p @ ws) = rstrip p"
  unfolding rstrip_def by (induction ws rule: rev_induct) auto

lemma rstrip_decomp: "\<exists>ws. s = rstrip s @ ws \<and> (\<forall>c \<in> set ws. isspace c)"
  unfolding rstrip_def
  by (metis rev_append rev_rev_ident set_rev takeWhile_dropWhile_id set_takeWhileD)

lemma rstrip_last: "rstrip s \<noteq> [] \<Longrightarrow> \<not> isspace (last (rstrip s))"
  unfolding rstrip_def
  by (metis hd_dropWhile last_rev rev_is_Nil_conv)

lemma rstrip_eq_iff:
  "rstrip a = rstrip e \<longleftrightarrow>
   (\<exists>p wa we. a = p @ wa \<and> e = p @ we \<and> (\<forall>c \<in> set wa. isspace c) \<and> (\<forall>c \<in> set we. isspace c))"
proof
  assume eq: "rstrip a = rstrip e"
  obtain wa where wa: "a = rstrip a @ wa" "\<forall>c \<in> set wa. isspace c"
    using rstrip_decomp by blast
  obtain we where we: "e = rstrip e @ we" "\<forall>c \<in> set we. isspace c"
    using rstrip_decomp by blast
  from wa we eq show "\<exists>p wa we. a = p @ wa \<and> e = p @ we \<and> (\<forall>c \<in> set wa. isspace c) \<and> (\<forall>c \<in> set we. isspace c)"
    by metis
next
  assume "\<exists>p wa we. a = p @ wa \<and> e = p @ we \<and> (\<forall>c \<in> set wa. isspace c) \<and> (\<forall>c \<in> set we. isspace c)"
  then show "rstrip a = rstrip e"
    by (auto simp: rstrip_append_spaces)
qed

lemma compare_match: "fst (compare_outputs a e) \<longleftrightarrow> normalize_output a = normalize_output e"
  by (simp add: compare_outputs_def Let_def)

lemma step_continue_iff:
  "attempt_step mr rd a ev = Continue w \<longleftrightarrow> rate_limit_signal ev \<and> int a < mr \<and> w = wait_time rd a"
  by (cases ev rule: rate_limit_signal.cases) (auto split: sum.splits exn.splits)

lemma attempts_unroll:
  "k \<le> n \<Longrightarrow> \<forall>i<k. rate_limit_signal (srv (a + i)) \<Longrightarrow> int (a + k) \<le> mr \<Longrightarrow>
   attempts srv mr rd a n =
     (case attempts srv mr rd (a + k) (n - k) of (r, sl) \<Rightarrow> (r, map (wait_time rd) [a..<a + k] @ sl))"
proof (induction k arbitrary: a n)
  case 0
  then show ?case by simp
next
  case (Suc k)
  then obtain n' where n: "n = Suc n'" by (cases n) auto
  from Suc.prems have sig: "rate_limit_signal (srv a)" by force
  from Suc.prems have lt: "int a < mr" by simp
  have st: "attempt_step mr rd a (srv a) = Continue (wait_time rd a)"
    using sig lt by (simp add: step_continue_iff)
  have u: "[a..<a + Suc k] = a # [Suc a..<Suc a + k]"
    using upt_conv_Cons[of a "a + Suc k"] by simp
  have "k \<le> n'" using Suc.prems n by simp
  moreover have "\<forall>i<k. rate_limit_signal (srv (Suc a + i))" using Suc.prems(2) by auto
  moreover have "int (Suc a + k) \<le> mr" using Suc.prems by simp
  ultimately have IH: "attempts srv mr rd (Suc a) n' =
     (case attempts srv mr rd (Suc a + k) (n' - k) of (r, sl) \<Rightarrow> (r, map (wait_time rd) [Suc a..<Suc a + k] @ sl))"
    by (rule Suc.IH)
  show ?case
    unfolding n u by (simp add: st IH split: prod.splits)
qed

lemma run_test_case_reaches:
  assumes "int k \<le> mr" "\<forall>i<k. rate_limit_signal (srv i)" "attempt_step mr rd k (srv k) = Return r"
  shows "run_test_case srv mr rd = (r, map (wait_time rd) [0..<k])"
proof -
  have "k \<le> nat (mr + 1)" using assms(1) by linarith
  then have "attempts srv mr rd 0 (nat (mr + 1)) =
     (case attempts srv mr rd (0 + k) (nat (mr + 1) - k) of (r, sl) \<Rightarrow> (r, map (wait_time rd) [0..<0 + k] @ sl))"
    using assms by (intro attempts_unroll) auto
  moreover obtain m where "nat (mr + 1) - k = Suc m"
    using assms(1) by (cases "nat (mr + 1) - k") linarith+
  ultimately show ?thesis
    using assms(3) by (simp add: run_test_case_def)
qed

lemma run_test_case_answered:
  assumes "answered srv mr k d"
  shows "run_test_case srv mr rd = (process_output d, map (wait_time rd) [0..<k])"
proof -
  have "attempt_step mr rd k (srv k) = Return (process_output d)"
    using assms unfolding answered_def by (cases "(srv k, d)" rule: delivers.cases) auto
  then show ?thesis
    using assms run_test_case_reaches unfolding answered_def by blast
qed



text \<open>
  C2.  \<^verbatim>\<open>compare_outputs\<close> reports a match exactly when the two strings are equal after
  trailing whitespace is trimmed from each, that is, when they are a common text followed
  by whitespace only; nothing else is normalised: \<^verbatim>\<open>"42\n\n"\<close> matches \<^verbatim>\<open>"42"\<close>, while
  a difference of case, of inner whitespace or of the numeral written does not match.
\<close>

theorem compare_outputs_trimmed_equality:
  "(fst (compare_outputs (Some actual) (Some expected)) \<longleftrightarrow> rstrip actual = rstrip expected)
   \<and> (fst (compare_outputs (Some actual) (Some expected)) \<longleftrightarrow>
        (\<exists>p wa we. actual = p @ wa \<and> expected = p @ we
           \<and> (\<forall>c \<in> set wa. isspace c) \<and> (\<forall>c \<in> set we. isspace c)))
   \<and> (rstrip actual \<noteq> [] \<longrightarrow> \<not> isspace (last (rstrip actual)))
   \<and> compare_outputs (Some (''42'' @ NL @ NL)) (Some ''42'')
         = (True, ''Output matches expected result'')
   \<and> \<not> fst (compare_outputs (Some ''Hello'') (Some ''hello''))
   \<and> \<not> fst (compare_outputs (Some ''a b'') (Some ''a  b''))
   \<and> \<not> fst (compare_outputs (Some ''1.0'') (Some ''1''))"
proof -
  have m: "fst (compare_outputs (Some actual) (Some expected)) \<longleftrightarrow> rstrip actual = rstrip expected"
    by (simp add: compare_match normalize_output_def)
  have ex: "compare_outputs (Some (''42'' @ NL @ NL)) (Some ''42'')
         = (True, ''Output matches expected result'')"
    by (simp add: compare_outputs_def normalize_output_def rstrip_def isspace_def)
  have n1: "\<not> fst (compare_outputs (Some ''Hello'') (Some ''hello''))"
    by (simp add: compare_match normalize_output_def rstrip_def isspace_def)
  have n2: "\<not> fst (compare_outputs (Some ''a b'') (Some ''a  b''))"
    by (simp add: compare_match normalize_output_def rstrip_def isspace_def)
  have n3: "\<not> fst (compare_outputs (Some ''1.0'') (Some ''1''))"
    by (simp add: compare_match normalize_output_def rstrip_def isspace_def)
  show ?thesis
    using m rstrip_eq_iff[of actual expected] rstrip_last[of actual] ex n1 n2 n3 by blast
qed

theorem compare_outputs_trimmed_equality_witness:
  "fst (compare_outputs (Some (''7 '' @ NL)) (Some ''7''))
   \<and> \<not> isspace (last (rstrip (''7 '' @ NL)))"
  using compare_outputs_trimmed_equality [of "''7 '' @ NL" "''7''"]
  by (simp add: rstrip_def isspace_def)

text \<open>
  C10.  \<^verbatim>\<open>normalize_output\<close> maps \<^verbatim>\<open>None\<close> to the empty string, and \<^verbatim>\<open>compare_outputs\<close>
  with \<^verbatim>\<open>None\<close> as actual output returns a pair, whose first component says that the
  expected string is empty after trimming.
\<close>

theorem compare_outputs_none_actual:
  "normalize_output None = []
   \<and> (fst (compare_outputs None (Some expected)) \<longleftrightarrow> rstrip expected = [])
   \<and> (\<exists>msg. compare_outputs None (Some expected) = (rstrip expected = [], msg))"
  by (auto simp: compare_outputs_def normalize_output_def Let_def)

theorem compare_outputs_none_actual_witness:
  "fst (compare_outputs None (Some ('' '' @ NL))) \<and> \<not> fst (compare_outputs None (Some ''0''))"
  using compare_outputs_none_actual [of "'' '' @ NL"] compare_outputs_none_actual [of "''0''"]
  by (simp add: rstrip_def isspace_def)

section \<open>The retry policy\<close>

lemma process_output_hello:
  "process_output hello_body =
     \<lparr>stdout = Some (''Hello'' @ NL), stderr = Some [], compile_error = None,
      runtime_error = None, success = True\<rparr>"
  by (simp add: process_output_def process_run_def process_compile_def process_no_run_def
        hello_body_def initial_result_def truthy_def)

lemma rate_limit_signal_iff:
  "rate_limit_signal ev \<longleftrightarrow>
     (\<exists>msg body. ev = Response 429 msg body)
     \<or> (\<exists>msg. client_error_of ev = Some msg \<and> is_rate_limit msg)"
  by (cases ev rule: rate_limit_signal.cases) (auto split: sum.splits exn.splits)









section \<open>Transport failures\<close>

text \<open>
  A failure of the transport at an attempt that is reached ends \<^verbatim>\<open>run_test_case\<close> there,
  with no sleep and no further attempt, unless it is a client error that the test of the
  handler takes for a rate limit while a retry is left.  It is returned as an outcome
  without success whose runtime error is the message of the exception, after
  \<^verbatim>\<open>HTTP error: \<close> when the exception is an \<^verbatim>\<open>aiohttp.ClientError\<close>.
\<close>

lemma transport_failure_is_terminal:
  assumes "int k \<le> max_retries" and "\<forall>i<k. rate_limit_signal (srv i)"
  shows "(srv k = PostRaises (OtherException msg) \<longrightarrow>
            run_test_case srv max_retries retry_delay
              = (failed msg, map (\<lambda>attempt. retry_delay * 2 ^ attempt) [0..<k]))
    \<and> (srv k = PostRaises (ClientError msg) \<and> (\<not> is_rate_limit msg \<or> int k = max_retries) \<longrightarrow>
            run_test_case srv max_retries retry_delay
              = (failed (''HTTP error: '' @ msg), map (\<lambda>attempt. retry_delay * 2 ^ attempt) [0..<k]))
    \<and> (srv k = Response status msg body \<and> 400 \<le> status \<and> status \<noteq> 429
          \<and> (\<not> is_rate_limit msg \<or> int k = max_retries) \<longrightarrow>
            run_test_case srv max_retries retry_delay
              = (failed (''HTTP error: '' @ msg), map (\<lambda>attempt. retry_delay * 2 ^ attempt) [0..<k]))"
proof -
  have w: "map (wait_time retry_delay) [0..<k] = map (\<lambda>attempt. retry_delay * 2 ^ attempt) [0..<k]"
    by (simp add: wait_time_def)
  have r: "\<And>res. attempt_step max_retries retry_delay k (srv k) = Return res \<Longrightarrow>
     run_test_case srv max_retries retry_delay
       = (res, map (\<lambda>attempt. retry_delay * 2 ^ attempt) [0..<k])"
    using run_test_case_reaches[OF assms] w by simp
  have a: "srv k = PostRaises (OtherException msg) \<longrightarrow>
            run_test_case srv max_retries retry_delay
              = (failed msg, map (\<lambda>attempt. retry_delay * 2 ^ attempt) [0..<k])"
    by (auto intro!: r)
  have b: "srv k = PostRaises (ClientError msg) \<and> (\<not> is_rate_limit msg \<or> int k = max_retries) \<longrightarrow>
            run_test_case srv max_retries retry_delay
              = (failed (''HTTP error: '' @ msg), map (\<lambda>attempt. retry_delay * 2 ^ attempt) [0..<k])"
    by (auto intro!: r)
  have c: "srv k = Response status msg body \<and> 400 \<le> status \<and> status \<noteq> 429
          \<and> (\<not> is_rate_limit msg \<or> int k = max_retries) \<longrightarrow>
            run_test_case srv max_retries retry_delay
              = (failed (''HTTP error: '' @ msg), map (\<lambda>attempt. retry_delay * 2 ^ attempt) [0..<k])"
    by (auto intro!: r)
  from a b c show ?thesis by blast
qed



lemma server_error_is_terminal:
  "run_test_case server_error 3 1
     = (failed ''HTTP error: 500, message=Internal Server Error'', [])"
proof -
  have n: "\<not> is_rate_limit ''500, message=Internal Server Error''" by code_simp
  have s: "server_error 0 = Response 500 ''500, message=Internal Server Error''
                  (Inr \<lparr>run = None, compile = None\<rparr>)"
    by (simp add: server_error_def responses_def)
  show ?thesis
    using transport_failure_is_terminal [where k = 0 and max_retries = 3
        and srv = server_error and retry_delay = 1 and status = 500
        and msg = "''500, message=Internal Server Error''"
        and body = "Inr \<lparr>run = None, compile = None\<rparr>"] n s
    by simp
qed

text \<open>
  C7.  The first attempt fails with a refused connection to port 4290, a transport
  failure that has nothing to do with rate limiting.  The handler looks for \<^verbatim>\<open>429\<close> in
  the message, finds it in the port number, sleeps one second and tries again: the
  failure is retried, and the outcome of the run is that of the second attempt.
\<close>

theorem refused_connection_is_retried:
  "refused_then_served 0
     = PostRaises (ClientError ''Cannot connect to host localhost:4290 ssl:default'')
   \<and> run_test_case refused_then_served 3 1 = (process_output hello_body, [1])
   \<and> success (process_output hello_body)"
proof -
  have sig: "is_rate_limit ''Cannot connect to host localhost:4290 ssl:default''" by code_simp
  have "run_test_case refused_then_served 3 1 = (process_output hello_body, [1])"
    by code_simp
  then show ?thesis
    by (simp add: process_output_hello refused_then_served_def responses_def)
qed

section \<open>Classification of the response\<close>

lemma process_output_compile_failed:
  assumes "compile d = Some c" "spec_compile_failed c"
  shows "compile_error (process_output d) = Some (spec_compile_message c)"
    and "\<not> success (process_output d)"
  using assms
  by (cases "sec_stderr c"; cases "sec_code c"; cases "sec_stdout c";
      simp add: process_output_def process_compile_def process_no_run_def
        spec_compile_failed_def spec_compile_message_def field_text_def truthy_def)+

lemma process_run_exit_code:
  assumes "run d = Some r" "sec_code r = Val n" "n \<noteq> 0" "field_text (sec_stderr r) = []"
  shows "runtime_error (process_run d res) = Some (''Process exited with code '' @ str_int n)"
    and "\<not> success (process_run d res)"
proof -
  have t: "\<not> truthy (dict_get (sec_stderr r) (Some []))"
    using assms(4) by (cases "sec_stderr r") (simp_all add: field_text_def truthy_def)
  have c: "dict_get (sec_code r) (Some (- 1)) = Some n" using assms(2) by simp
  show "runtime_error (process_run d res) = Some (''Process exited with code '' @ str_int n)"
    unfolding process_run_def Let_def using assms(1,3) t c
    by (simp add: format_code_def)
  show "\<not> success (process_run d res)"
    unfolding process_run_def Let_def using assms(1,3) t c
    by simp
qed

lemma process_compile_keeps:
  "runtime_error (process_compile d res) = runtime_error res"
  "success (process_compile d res) \<longrightarrow> success res"
  by (simp_all add: process_compile_def split: option.splits)

lemma process_no_run_keeps:
  "run d \<noteq> None \<Longrightarrow> process_no_run d res = res"
  by (auto simp: process_no_run_def)

lemma process_output_exit_code:
  assumes "run d = Some r" "sec_code r = Val n" "n \<noteq> 0" "field_text (sec_stderr r) = []"
  shows "runtime_error (process_output d) = Some (''Process exited with code '' @ str_int n)"
    and "\<not> success (process_output d)"
  using process_run_exit_code[OF assms, of initial_result] assms(1)
    process_compile_keeps[of d "process_run d initial_result"]
  by (simp_all add: process_output_def process_no_run_keeps)

lemma process_output_no_run:
  assumes "run d = None"
  shows "runtime_error (process_output d) = Some ''No execution output received''"
    and "\<not> success (process_output d)"
  using assms by (simp_all add: process_output_def process_no_run_def)

lemma process_single_test_case_outcome:
  assumes "process_single_test_case read_file srv inp outp idx = Inr j"
  shows "compile_error j = compile_error (fst (run_test_case srv 3 1))"
    and "runtime_error j = runtime_error (fst (run_test_case srv 3 1))"
    and "success j = success (fst (run_test_case srv 3 1))"
    and "overall_success j \<longrightarrow> success j \<and> output_match j \<and> \<not> truthy (compile_error j)"
    and "test_index j = idx" and "input_file j = inp" and "expected_output_file j = outp"
  using assms
  by (auto simp: process_single_test_case_def Let_def split: sum.splits)

text \<open>
  C8.  When the response that \<^verbatim>\<open>run_test_case\<close> decodes has a \<^verbatim>\<open>compile\<close> section whose
  stderr is non-empty or whose exit code is nonzero, the outcome has the compile error
  given by the stderr, else the stdout, else \<^verbatim>\<open>Compilation failed\<close>, and is not a
  success, whatever the \<^verbatim>\<open>run\<close> section holds; the record that
  \<^verbatim>\<open>process_single_test_case\<close> makes of it has the same compile error and no overall
  success.
\<close>

theorem compile_error_classification:
  assumes "answered srv max_retries k d" and "compile d = Some c" and "spec_compile_failed c"
  shows "compile_error (fst (run_test_case srv max_retries retry_delay))
           = Some (spec_compile_message c)
    \<and> \<not> success (fst (run_test_case srv max_retries retry_delay))
    \<and> (max_retries = 3 \<and> retry_delay = 1
          \<and> process_single_test_case read_file srv inp outp idx = Inr j \<longrightarrow>
        compile_error j = Some (spec_compile_message c) \<and> \<not> overall_success j)"
proof -
  have run: "fst (run_test_case srv max_retries retry_delay) = process_output d"
    using run_test_case_answered[OF assms(1)] by simp
  have ce: "compile_error (process_output d) = Some (spec_compile_message c)"
    and ns: "\<not> success (process_output d)"
    using process_output_compile_failed[OF assms(2,3)] by simp_all
  have "max_retries = 3 \<and> retry_delay = 1
          \<and> process_single_test_case read_file srv inp outp idx = Inr j \<longrightarrow>
        compile_error j = Some (spec_compile_message c) \<and> \<not> overall_success j"
  proof
    assume a: "max_retries = 3 \<and> retry_delay = 1
          \<and> process_single_test_case read_file srv inp outp idx = Inr j"
    then have p: "process_single_test_case read_file srv inp outp idx = Inr j" by simp
    have "fst (run_test_case srv 3 1) = process_output d" using run a by simp
    then show "compile_error j = Some (spec_compile_message c) \<and> \<not> overall_success j"
      using process_single_test_case_outcome(1,3,4)[OF p] ce ns by simp
  qed
  then show ?thesis using run ce ns by simp
qed


theorem compile_error_classification_witness:
  "compile_error (fst (run_test_case syntax_error_service 3 1)) = Some ''syntax error''
   \<and> \<not> success (fst (run_test_case syntax_error_service 3 1))
   \<and> run syntax_error_body
       = Some \<lparr>sec_stdout = Val ''42'', sec_stderr = Val [], sec_code = Val 0\<rparr>
   \<and> (\<exists>j. process_single_test_case
              (file_table [(''input1.txt'', ''5''), (''output1.txt'', ''42'')])
              syntax_error_service ''input1.txt'' ''output1.txt'' 1 = Inr j
            \<and> compile_error j = Some ''syntax error'' \<and> output_match j \<and> \<not> overall_success j)"
proof -
  let ?c = "\<lparr>sec_stdout = Val [], sec_stderr = Val ''syntax error'', sec_code = Val 1\<rparr>"
  let ?read = "file_table [(''input1.txt'', ''5''), (''output1.txt'', ''42'')]"
  have a: "answered syntax_error_service 3 0 syntax_error_body"
    by (simp add: answered_def syntax_error_service_def responses_def)
  have c: "compile syntax_error_body = Some ?c" by (simp add: syntax_error_body_def)
  have f: "spec_compile_failed ?c" by (simp add: spec_compile_failed_def field_text_def)
  have m: "spec_compile_message ?c = ''syntax error''"
    by (simp add: spec_compile_message_def field_text_def)
  obtain j where j: "process_single_test_case ?read syntax_error_service
      ''input1.txt'' ''output1.txt'' 1 = Inr j"
    by (simp add: process_single_test_case_def file_table_def Let_def)
  have run: "fst (run_test_case syntax_error_service 3 1) = process_output syntax_error_body"
    using run_test_case_answered[OF a] by simp
  have so: "stdout (process_output syntax_error_body) = Some ''42''"
    by (simp add: process_output_def process_run_def process_compile_def process_no_run_def
        syntax_error_body_def initial_result_def truthy_def)
  have om: "output_match j"
    using j run so
    by (auto simp: process_single_test_case_def file_table_def Let_def compare_match)
  from compile_error_classification [OF a c f, of 1 ?read "''input1.txt''" "''output1.txt''" 1 j]
    j m om
  show ?thesis by (auto simp: syntax_error_body_def)
qed

text \<open>
  C9.  When the response that \<^verbatim>\<open>run_test_case\<close> decodes has a \<^verbatim>\<open>run\<close> section with a
  nonzero exit code \<open>n\<close> and an empty stderr, the outcome is not a success and its
  runtime error is \<^verbatim>\<open>Process exited with code \<close> followed by the numeral of \<open>n\<close>; when it
  has no \<^verbatim>\<open>run\<close> section, the outcome is not a success and its runtime error is
  \<^verbatim>\<open>No execution output received\<close>.
\<close>

theorem runtime_error_classification:
  assumes "answered srv max_retries k d"
  shows "(\<forall>r n. run d = Some r \<and> sec_code r = Val n \<and> n \<noteq> 0 \<and> field_text (sec_stderr r) = [] \<longrightarrow>
            runtime_error (fst (run_test_case srv max_retries retry_delay))
              = Some (''Process exited with code '' @ str_int n)
            \<and> \<not> success (fst (run_test_case srv max_retries retry_delay)))
    \<and> (run d = None \<longrightarrow>
          runtime_error (fst (run_test_case srv max_retries retry_delay))
            = Some ''No execution output received''
          \<and> \<not> success (fst (run_test_case srv max_retries retry_delay)))"
proof -
  have run: "fst (run_test_case srv max_retries retry_delay) = process_output d"
    using run_test_case_answered[OF assms] by simp
  show ?thesis
    unfolding run using process_output_exit_code process_output_no_run by blast
qed

theorem runtime_error_classification_witness:
  "runtime_error (fst (run_test_case segfault_service 3 1))
     = Some ''Process exited with code 139''
   \<and> \<not> success (fst (run_test_case segfault_service 3 1))
   \<and> runtime_error (fst (run_test_case no_run_service 3 1))
     = Some ''No execution output received''
   \<and> \<not> success (fst (run_test_case no_run_service 3 1))"
proof -
  have a: "answered segfault_service 3 1 segfault_body"
    by (simp add: answered_def segfault_service_def responses_def too_many_requests_def)
  have b: "answered no_run_service 3 0 \<lparr>run = None, compile = None\<rparr>"
    by (simp add: answered_def no_run_service_def responses_def)
  have s: "str_int 139 = ''139''" by code_simp
  show ?thesis
    using runtime_error_classification [OF a, of 1]
      runtime_error_classification [OF b, of 1] s
    by (simp add: segfault_body_def field_text_def)
qed

section \<open>Properties of the discovery\<close>

lemma pair_files_pairs:
  "fst (pair_files entries xs)
     = map (\<lambda>i. (i, output_file_for i)) (filter (\<lambda>i. output_file_for i \<in> set entries) xs)"
  by (induction xs) (auto simp: Let_def split: prod.splits)

lemma pair_files_warnings:
  "snd (pair_files entries xs)
     = map (\<lambda>i. (output_file_for i, i)) (filter (\<lambda>i. output_file_for i \<notin> set entries) xs)"
  by (induction xs) (auto simp: Let_def split: prod.splits)

text \<open>
  C4, amended.  For an existing directory, \<^verbatim>\<open>get_test_case_files\<close> returns, with its output
  file, each file matching \<^verbatim>\<open>input*.txt\<close> whose output file (named after the same
  test number) is in the directory, and prints one warning for each whose output file is
  missing: that file is in no pair, and the number of pairs is one less for it.  The pairs
  are in ascending order of the input file names compared as strings, which puts
  \<^verbatim>\<open>input10.txt\<close> before \<^verbatim>\<open>input2.txt\<close>.
\<close>

theorem get_test_case_files_pairs:
  assumes "get_test_case_files (Some entries) = (test_pairs, warnings)"
  shows "test_pairs = map (\<lambda>i. (i, output_file_for i))
           (filter (\<lambda>i. output_file_for i \<in> set entries) (sort (filter glob_input_txt entries)))
    \<and> warnings = map (\<lambda>i. (output_file_for i, i))
           (filter (\<lambda>i. output_file_for i \<notin> set entries) (sort (filter glob_input_txt entries)))
    \<and> set (map fst test_pairs)
         = {i \<in> set entries. glob_input_txt i \<and> output_file_for i \<in> set entries}
    \<and> (\<forall>i \<in> set entries. glob_input_txt i \<and> output_file_for i \<notin> set entries \<longrightarrow>
          i \<notin> set (map fst test_pairs) \<and> (output_file_for i, i) \<in> set warnings)
    \<and> length test_pairs + length warnings = length (filter glob_input_txt entries)
    \<and> (distinct entries \<longrightarrow> distinct (map fst test_pairs))
    \<and> sorted (map fst test_pairs)"
proof -
  let ?inputs = "sort (filter glob_input_txt entries)"
  let ?P = "\<lambda>i. output_file_for i \<in> set entries"
  have p: "test_pairs = map (\<lambda>i. (i, output_file_for i)) (filter ?P ?inputs)"
    using assms pair_files_pairs[of entries ?inputs]
    by (simp add: get_test_case_files_def)
  have w: "warnings = map (\<lambda>i. (output_file_for i, i)) (filter (\<lambda>i. \<not> ?P i) ?inputs)"
    using assms pair_files_warnings[of entries ?inputs]
    by (simp add: get_test_case_files_def)
  have f: "map fst test_pairs = filter ?P ?inputs"
    unfolding p by (simp add: comp_def)
  have s: "set (map fst test_pairs)
         = {i \<in> set entries. glob_input_txt i \<and> output_file_for i \<in> set entries}"
    unfolding f by auto
  have m: "\<forall>i \<in> set entries. glob_input_txt i \<and> output_file_for i \<notin> set entries \<longrightarrow>
          i \<notin> set (map fst test_pairs) \<and> (output_file_for i, i) \<in> set warnings"
    unfolding f w by auto
  have "length (filter ?P ?inputs) + length (filter (\<lambda>i. \<not> ?P i) ?inputs) = length ?inputs"
    by (rule sum_length_filter_compl)
  then have l: "length test_pairs + length warnings = length (filter glob_input_txt entries)"
    unfolding p w by simp
  have d: "distinct entries \<longrightarrow> distinct (map fst test_pairs)"
    unfolding f by simp
  have "sorted (map (\<lambda>x. x) (filter ?P ?inputs))"
    by (rule sorted_filter) simp
  then have o: "sorted (map fst test_pairs)"
    unfolding f by simp
  show ?thesis by (intro conjI p w s m l d o)
qed

theorem get_test_case_files_pairs_witness:
  "get_test_case_files (Some dir_missing_output3)
     = ([(''input1.txt'', ''output1.txt''), (''input2.txt'', ''output2.txt'')],
        [(''output3.txt'', ''input3.txt'')])
   \<and> ''input3.txt'' \<notin> set [''input1.txt'', ''input2.txt'']
   \<and> length [(''input1.txt'', ''output1.txt''), (''input2.txt'', ''output2.txt'')] + 1
       = length (filter glob_input_txt dir_missing_output3)
   \<and> sorted [''input1.txt'', ''input2.txt'']"
proof -
  have g: "get_test_case_files (Some dir_missing_output3)
     = ([(''input1.txt'', ''output1.txt''), (''input2.txt'', ''output2.txt'')],
        [(''output3.txt'', ''input3.txt'')])"
    by code_simp
  note T = get_test_case_files_pairs [OF g]
  have m: "''input3.txt'' \<notin> set [''input1.txt'', ''input2.txt'']" by simp
  have l: "length [(''input1.txt'', ''output1.txt''), (''input2.txt'', ''output2.txt'')] + 1
       = length (filter glob_input_txt dir_missing_output3)"
    using T [THEN conjunct2, THEN conjunct2, THEN conjunct2, THEN conjunct2, THEN conjunct1]
    by simp
  have o: "sorted [''input1.txt'', ''input2.txt'']"
    using T [THEN conjunct2, THEN conjunct2, THEN conjunct2, THEN conjunct2, THEN conjunct2,
        THEN conjunct2]
    by simp
  show ?thesis by (intro conjI g m l o)
qed

theorem ascending_test_number_counterexample:
  "get_test_case_files (Some dir_two_and_ten)
     = ([(''input10.txt'', ''output10.txt''), (''input2.txt'', ''output2.txt'')], [])
   \<and> map (case_number \<circ> fst) (fst (get_test_case_files (Some dir_two_and_ten))) = [10, 2]
   \<and> \<not> sorted (map (case_number \<circ> fst) (fst (get_test_case_files (Some dir_two_and_ten))))"
proof -
  have g: "get_test_case_files (Some dir_two_and_ten)
     = ([(''input10.txt'', ''output10.txt''), (''input2.txt'', ''output2.txt'')], [])"
    by code_simp
  have n: "map (case_number \<circ> fst) (fst (get_test_case_files (Some dir_two_and_ten))) = [10, 2]"
    by code_simp
  show ?thesis unfolding n using g by simp
qed

section \<open>Gathering the results\<close>

lemma gather_loop_ok:
  assumes "length slots = length rs"
    and "\<forall>i<length rs. slots ! i \<noteq> None \<longrightarrow> slots ! i = Some (rs ! i)"
    and "\<forall>i<length rs. slots ! i = None \<longrightarrow> i \<in> set order"
  shows "gather_loop order (map Inr rs) slots = Some (Inr rs)"
  using assms
proof (induction order arbitrary: slots)
  case Nil
  then have full: "\<forall>i<length rs. slots ! i = Some (rs ! i)" by auto
  have "list_all (\<lambda>slot. slot \<noteq> None) slots"
    using full Nil.prems(1) by (simp add: list_all_length)
  moreover have "map the slots = rs"
    using full Nil.prems(1) by (intro nth_equalityI) auto
  ultimately show ?case by simp
next
  case (Cons i order)
  show ?case
  proof (cases "i < length rs")
    case True
    let ?slots = "slots[i := Some (rs ! i)]"
    have 1: "length ?slots = length rs" using Cons.prems(1) by simp
    have 2: "\<forall>j<length rs. ?slots ! j \<noteq> None \<longrightarrow> ?slots ! j = Some (rs ! j)"
    proof (intro allI impI)
      fix j assume j: "j < length rs" "?slots ! j \<noteq> None"
      show "?slots ! j = Some (rs ! j)"
      proof (cases "j = i")
        case True
        then show ?thesis using j(1) Cons.prems(1) by simp
      next
        case False
        then have "?slots ! j = slots ! j" by simp
        then show ?thesis using j Cons.prems(2) by simp
      qed
    qed
    have 3: "\<forall>j<length rs. ?slots ! j = None \<longrightarrow> j \<in> set order"
    proof (intro allI impI)
      fix j assume j: "j < length rs" "?slots ! j = None"
      then have ne: "j \<noteq> i" using Cons.prems(1) by auto
      then have "slots ! j = None" using j(2) by simp
      then have "j \<in> set (i # order)" using Cons.prems(3) j(1) by blast
      then show "j \<in> set order" using ne by simp
    qed
    from Cons.IH[OF 1 2 3] True show ?thesis by simp
  next
    case False
    have 3: "\<forall>j<length rs. slots ! j = None \<longrightarrow> j \<in> set order"
      using Cons.prems(3) False by auto
    from Cons.IH[OF Cons.prems(1,2) 3] False show ?thesis by simp
  qed
qed

lemma gather_ok:
  assumes "{0..<length rs} \<subseteq> set order"
  shows "gather order (map Inr rs) = Some (Inr rs)"
  unfolding gather_def using assms
  by (intro gather_loop_ok[of _ rs order, simplified]) auto

lemma gather_loop_error:
  assumes "\<exists>i \<in> set order. i < length outs \<and> isl (outs ! i)"
  shows "\<exists>e. gather_loop order outs slots = Some (Inl e) \<and> Inl e \<in> set outs"
  using assms
proof (induction order arbitrary: slots)
  case Nil
  then show ?case by simp
next
  case (Cons i order)
  show ?case
  proof (cases "i < length outs")
    case True
    show ?thesis
    proof (cases "outs ! i")
      case (Inl e)
      then have "Inl e \<in> set outs" using True nth_mem by metis
      with Inl True show ?thesis by simp
    next
      case (Inr r)
      then have "\<exists>j \<in> set order. j < length outs \<and> isl (outs ! j)"
        using Cons.prems by auto
      from Cons.IH[OF this] Inr True show ?thesis by simp
    qed
  next
    case False
    then have "\<exists>j \<in> set order. j < length outs \<and> isl (outs ! j)"
      using Cons.prems by auto
    from Cons.IH[OF this] False show ?thesis by simp
  qed
qed

lemma gather_error:
  assumes "{0..<length outs} \<subseteq> set order" and "\<exists>i<length outs. isl (outs ! i)"
  shows "\<exists>e. gather order outs = Some (Inl e) \<and> Inl e \<in> set outs"
proof -
  from assms have "\<exists>i \<in> set order. i < length outs \<and> isl (outs ! i)" by force
  then show ?thesis unfolding gather_def by (rule gather_loop_error)
qed

section \<open>The tasks of a run\<close>

lemma process_single_test_case_isl:
  "isl (process_single_test_case read_file srv inp outp idx)
     \<longleftrightarrow> isl (read_file inp) \<or> isl (read_file outp)"
  by (simp add: process_single_test_case_def Let_def split: sum.splits)

lemma length_make_tasks: "length (make_tasks read_file srv test_pairs) = length test_pairs"
  by (simp add: make_tasks_def)

lemma nth_make_tasks:
  assumes "k < length test_pairs"
  shows "make_tasks read_file srv test_pairs ! k
     = process_single_test_case read_file (srv (Suc k))
         (fst (test_pairs ! k)) (snd (test_pairs ! k)) (Suc k)"
  using assms by (simp add: make_tasks_def nth_enumerate_eq split: prod.splits)

lemma make_tasks_ok:
  assumes "\<forall>(inp, outp) \<in> set test_pairs. \<not> isl (read_file inp) \<and> \<not> isl (read_file outp)"
  shows "\<exists>rs. make_tasks read_file srv test_pairs = map Inr rs
    \<and> length rs = length test_pairs
    \<and> map test_index rs = [1..<Suc (length test_pairs)]
    \<and> map (\<lambda>j. (input_file j, expected_output_file j)) rs = test_pairs"
proof -
  define tasks where "tasks = make_tasks read_file srv test_pairs"
  define rs where "rs = map projr tasks"
  have len: "length tasks = length test_pairs"
    unfolding tasks_def by (rule length_make_tasks)
  have 2: "length rs = length test_pairs"
    unfolding rs_def using len by simp
  have nth: "tasks ! k = process_single_test_case read_file (srv (Suc k))
         (fst (test_pairs ! k)) (snd (test_pairs ! k)) (Suc k)" if "k < length test_pairs" for k
    unfolding tasks_def by (rule nth_make_tasks[OF that])
  have el: "tasks ! k = Inr (rs ! k)" if "k < length test_pairs" for k
  proof -
    have "test_pairs ! k \<in> set test_pairs" using that by simp
    then have "\<not> isl (read_file (fst (test_pairs ! k))) \<and> \<not> isl (read_file (snd (test_pairs ! k)))"
      using assms by (auto simp: case_prod_beta)
    then have "\<not> isl (tasks ! k)"
      unfolding nth[OF that] process_single_test_case_isl by simp
    moreover have "rs ! k = projr (tasks ! k)"
      unfolding rs_def using that len by simp
    ultimately show ?thesis by simp
  qed
  have 1: "tasks = map Inr rs"
  proof (rule nth_equalityI)
    show "length tasks = length (map Inr rs)" using len 2 by simp
  next
    fix k assume "k < length tasks"
    then have k: "k < length test_pairs" using len by simp
    then have m: "map Inr rs ! k = Inr (rs ! k)" using 2 by simp
    show "tasks ! k = map Inr rs ! k" unfolding m by (rule el[OF k])
  qed
  have f: "test_index (rs ! k) = Suc k \<and> input_file (rs ! k) = fst (test_pairs ! k)
      \<and> expected_output_file (rs ! k) = snd (test_pairs ! k)" if "k < length test_pairs" for k
  proof -
    have "process_single_test_case read_file (srv (Suc k))
         (fst (test_pairs ! k)) (snd (test_pairs ! k)) (Suc k) = Inr (rs ! k)"
      using nth[OF that] el[OF that] by simp
    from process_single_test_case_outcome(5,6,7)[OF this] show ?thesis by simp
  qed
  have 3: "map test_index rs = [1..<Suc (length test_pairs)]"
  proof (rule nth_equalityI)
    show "length (map test_index rs) = length [1..<Suc (length test_pairs)]"
      using 2 by (simp del: upt_Suc)
  next
    fix k assume "k < length (map test_index rs)"
    then have k: "k < length test_pairs" using 2 by simp
    have "[1..<Suc (length test_pairs)] ! k = Suc k" using k by (simp del: upt_Suc)
    moreover have "map test_index rs ! k = test_index (rs ! k)" using k 2 by simp
    ultimately show "map test_index rs ! k = [1..<Suc (length test_pairs)] ! k"
      using f[OF k] by simp
  qed
  have 4: "map (\<lambda>j. (input_file j, expected_output_file j)) rs = test_pairs"
  proof (rule nth_equalityI)
    show "length (map (\<lambda>j. (input_file j, expected_output_file j)) rs) = length test_pairs"
      using 2 by simp
  next
    fix k assume "k < length (map (\<lambda>j. (input_file j, expected_output_file j)) rs)"
    then have k: "k < length test_pairs" using 2 by simp
    then have "map (\<lambda>j. (input_file j, expected_output_file j)) rs ! k
        = (input_file (rs ! k), expected_output_file (rs ! k))" using 2 by simp
    then show "map (\<lambda>j. (input_file j, expected_output_file j)) rs ! k = test_pairs ! k"
      using f[OF k] by simp
  qed
  show ?thesis
    using 1 2 3 4 unfolding tasks_def by (intro exI[of _ rs]) simp
qed

lemma process_single_test_case_Inl:
  assumes "process_single_test_case read_file srv inp outp idx = Inl e"
  shows "read_file inp = Inl e \<or> read_file outp = Inl e"
  using assms by (simp add: process_single_test_case_def Let_def split: sum.splits)

lemma run_all_loaded:
  assumes "fst (get_test_case_files dir) = test_pairs"
    and "\<forall>(inp, outp) \<in> set test_pairs. \<not> isl (read_file inp) \<and> \<not> isl (read_file outp)"
    and "{0..<length test_pairs} \<subseteq> set order"
  shows "\<exists>rr. run_test_cases_from_files dir read_file srv order = Some (Inr rr)
    \<and> length (results_of rr) = length test_pairs
    \<and> map test_index (results_of rr) = [1..<Suc (length test_pairs)]
    \<and> map (\<lambda>j. (input_file j, expected_output_file j)) (results_of rr) = test_pairs
    \<and> map Inr (results_of rr) = make_tasks read_file srv test_pairs"
proof (cases "test_pairs = []")
  case True
  then have "run_test_cases_from_files dir read_file srv order = Some (Inr NoTestCases)"
    using assms(1) by (simp add: run_test_cases_from_files_def)
  then show ?thesis
    using True by (intro exI[of _ NoTestCases]) (simp add: make_tasks_def)
next
  case False
  from make_tasks_ok[OF assms(2), of srv] obtain rs where rs:
    "make_tasks read_file srv test_pairs = map Inr rs" "length rs = length test_pairs"
    "map test_index rs = [1..<Suc (length test_pairs)]"
    "map (\<lambda>j. (input_file j, expected_output_file j)) rs = test_pairs"
    by blast
  have "{0..<length rs} \<subseteq> set order" using assms(3) rs(2) by simp
  then have g: "gather order (make_tasks read_file srv test_pairs) = Some (Inr rs)"
    unfolding rs(1) by (rule gather_ok)
  have "sorted (map test_index rs)" unfolding rs(3) by (rule sorted_upt)
  then have s: "sort_key test_index rs = rs" by (rule sort_key_id_if_sorted)
  have "run_test_cases_from_files dir read_file srv order = Some (Inr (Results rs))"
    using assms(1) False g s by (simp add: run_test_cases_from_files_def)
  then show ?thesis
    using rs by (intro exI[of _ "Results rs"]) simp
qed

lemma run_some_unreadable:
  assumes "fst (get_test_case_files dir) = test_pairs"
    and "{0..<length test_pairs} \<subseteq> set order"
    and "\<exists>(inp, outp) \<in> set test_pairs. isl (read_file inp) \<or> isl (read_file outp)"
  shows "\<exists>e. run_test_cases_from_files dir read_file srv order = Some (Inl e)
    \<and> (\<exists>(inp, outp) \<in> set test_pairs. read_file inp = Inl e \<or> read_file outp = Inl e)"
proof -
  define tasks where "tasks = make_tasks read_file srv test_pairs"
  have len: "length tasks = length test_pairs"
    unfolding tasks_def by (rule length_make_tasks)
  have nth: "tasks ! k = process_single_test_case read_file (srv (Suc k))
         (fst (test_pairs ! k)) (snd (test_pairs ! k)) (Suc k)" if "k < length test_pairs" for k
    unfolding tasks_def by (rule nth_make_tasks[OF that])
  from assms(3) obtain inp outp where io: "(inp, outp) \<in> set test_pairs"
    "isl (read_file inp) \<or> isl (read_file outp)" by blast
  then obtain k where k: "k < length test_pairs" "test_pairs ! k = (inp, outp)"
    by (auto simp: in_set_conv_nth)
  have "isl (tasks ! k)"
    unfolding nth[OF k(1)] process_single_test_case_isl using io(2) k(2) by simp
  then have "\<exists>i<length tasks. isl (tasks ! i)" using k(1) len by auto
  moreover have "{0..<length tasks} \<subseteq> set order" using assms(2) len by simp
  ultimately obtain e where e: "gather order tasks = Some (Inl e)" "Inl e \<in> set tasks"
    using gather_error by blast
  from e(2) obtain m where m: "m < length test_pairs" "tasks ! m = Inl e"
    using len by (auto simp: in_set_conv_nth)
  have "read_file (fst (test_pairs ! m)) = Inl e \<or> read_file (snd (test_pairs ! m)) = Inl e"
    using m(2) unfolding nth[OF m(1)] by (rule process_single_test_case_Inl)
  moreover have "test_pairs ! m \<in> set test_pairs" using m(1) by simp
  ultimately have "\<exists>(inp, outp) \<in> set test_pairs. read_file inp = Inl e \<or> read_file outp = Inl e"
    by (auto simp: case_prod_beta)
  moreover have "test_pairs \<noteq> []" using k(1) by auto
  then have "run_test_cases_from_files dir read_file srv order = Some (Inl e)"
    using assms(1) e(1) unfolding tasks_def by (simp add: run_test_cases_from_files_def)
  ultimately show ?thesis by blast
qed

lemma gather_loop_incomplete:
  assumes "length slots = length rs"
    and "\<exists>i<length rs. i \<notin> set order \<and> slots ! i = None"
  shows "gather_loop order (map Inr rs) slots = None"
  using assms
proof (induction order arbitrary: slots)
  case Nil
  then obtain i where "i < length slots" "slots ! i = None" by auto
  then have "\<not> list_all (\<lambda>slot. slot \<noteq> None) slots"
    unfolding list_all_length by blast
  then show ?case by simp
next
  case (Cons j order)
  from Cons.prems(2) obtain i where i: "i < length rs" "i \<noteq> j" "i \<notin> set order"
    "slots ! i = None" by auto
  show ?case
  proof (cases "j < length rs")
    case True
    let ?slots = "slots[j := Some (rs ! j)]"
    have 1: "length ?slots = length rs" using Cons.prems(1) by simp
    have "?slots ! i = None" using i(2,4) by simp
    then have 2: "\<exists>i<length rs. i \<notin> set order \<and> ?slots ! i = None" using i(1,3) by blast
    from Cons.IH[OF 1 2] True show ?thesis by simp
  next
    case False
    have 2: "\<exists>i<length rs. i \<notin> set order \<and> slots ! i = None" using i by blast
    from Cons.IH[OF Cons.prems(1) 2] False show ?thesis by simp
  qed
qed

lemma gather_incomplete:
  assumes "\<not> {0..<length rs} \<subseteq> set order"
  shows "gather order (map Inr rs) = None"
proof -
  from assms have "\<exists>i \<in> {0..<length rs}. i \<notin> set order" by blast
  then obtain i where "i < length rs" "i \<notin> set order" by auto
  then have "\<exists>i<length rs. i \<notin> set order \<and> replicate (length rs) None ! i = None"
    by auto
  then show ?thesis
    unfolding gather_def using gather_loop_incomplete[of "replicate (length rs) None" rs order]
    by simp
qed

lemma run_none_iff:
  assumes "fst (get_test_case_files dir) = test_pairs"
    and "\<forall>(inp, outp) \<in> set test_pairs. \<not> isl (read_file inp) \<and> \<not> isl (read_file outp)"
  shows "run_test_cases_from_files dir read_file srv order = None
           \<longleftrightarrow> \<not> {0..<length test_pairs} \<subseteq> set order"
proof (cases "{0..<length test_pairs} \<subseteq> set order")
  case True
  from run_all_loaded[OF assms True, of srv] True show ?thesis by auto
next
  case False
  then have ne: "test_pairs \<noteq> []" by auto
  from make_tasks_ok[OF assms(2), of srv] obtain rs where rs:
    "make_tasks read_file srv test_pairs = map Inr rs" "length rs = length test_pairs"
    by blast
  have "gather order (make_tasks read_file srv test_pairs) = None"
    unfolding rs(1) using False rs(2) by (intro gather_incomplete) simp
  then have "run_test_cases_from_files dir read_file srv order = None"
    using assms(1) ne by (simp add: run_test_cases_from_files_def)
  then show ?thesis using False by simp
qed

text \<open>
  C1, amended.  When the files of every discovered pair load, \<^verbatim>\<open>run_test_cases_from_files\<close>
  returns as soon as every task has completed, in whatever order, and not before; it then
  returns one judged record for each pair, the record of that pair's own task, in the
  order of the pairs: the test indices are \<open>1, \<dots>, N\<close> in ascending order.
\<close>

theorem run_returns_one_result_per_pair:
  assumes "fst (get_test_case_files dir) = test_pairs"
    and "\<forall>(inp, outp) \<in> set test_pairs. \<not> isl (read_file inp) \<and> \<not> isl (read_file outp)"
  shows "(run_test_cases_from_files dir read_file srv order = None
            \<longleftrightarrow> \<not> {0..<length test_pairs} \<subseteq> set order)
    \<and> ({0..<length test_pairs} \<subseteq> set order \<longrightarrow>
          (\<exists>rr. run_test_cases_from_files dir read_file srv order = Some (Inr rr)
             \<and> length (results_of rr) = length test_pairs
             \<and> map test_index (results_of rr) = [1..<Suc (length test_pairs)]
             \<and> map (\<lambda>j. (input_file j, expected_output_file j)) (results_of rr) = test_pairs
             \<and> map Inr (results_of rr) = make_tasks read_file srv test_pairs
             \<and> sorted (map test_index (results_of rr))
             \<and> distinct (map test_index (results_of rr))))"
proof -
  have a: "run_test_cases_from_files dir read_file srv order = None
            \<longleftrightarrow> \<not> {0..<length test_pairs} \<subseteq> set order"
    by (rule run_none_iff[OF assms])
  have b: "{0..<length test_pairs} \<subseteq> set order \<longrightarrow>
          (\<exists>rr. run_test_cases_from_files dir read_file srv order = Some (Inr rr)
             \<and> length (results_of rr) = length test_pairs
             \<and> map test_index (results_of rr) = [1..<Suc (length test_pairs)]
             \<and> map (\<lambda>j. (input_file j, expected_output_file j)) (results_of rr) = test_pairs
             \<and> map Inr (results_of rr) = make_tasks read_file srv test_pairs
             \<and> sorted (map test_index (results_of rr))
             \<and> distinct (map test_index (results_of rr)))"
  proof
    assume c: "{0..<length test_pairs} \<subseteq> set order"
    from run_all_loaded[OF assms c, of srv] obtain rr where rr:
      "run_test_cases_from_files dir read_file srv order = Some (Inr rr)"
      "length (results_of rr) = length test_pairs"
      "map test_index (results_of rr) = [1..<Suc (length test_pairs)]"
      "map (\<lambda>j. (input_file j, expected_output_file j)) (results_of rr) = test_pairs"
      "map Inr (results_of rr) = make_tasks read_file srv test_pairs"
      by blast
    have "sorted (map test_index (results_of rr))" unfolding rr(3) by (rule sorted_upt)
    moreover have "distinct (map test_index (results_of rr))"
      unfolding rr(3) by (rule distinct_upt)
    ultimately show "\<exists>rr. run_test_cases_from_files dir read_file srv order = Some (Inr rr)
             \<and> length (results_of rr) = length test_pairs
             \<and> map test_index (results_of rr) = [1..<Suc (length test_pairs)]
             \<and> map (\<lambda>j. (input_file j, expected_output_file j)) (results_of rr) = test_pairs
             \<and> map Inr (results_of rr) = make_tasks read_file srv test_pairs
             \<and> sorted (map test_index (results_of rr))
             \<and> distinct (map test_index (results_of rr))"
      using rr by (intro exI[of _ rr]) simp
  qed
  show ?thesis by (intro conjI a b)
qed

theorem run_returns_one_result_per_pair_witness:
  "map_option (map_sum id (map test_index \<circ> results_of))
     (run_test_cases_from_files (Some two_cases_dir) two_cases_files hello_service [1, 0])
   = Some (Inr [1, 2])"
proof -
  let ?pairs = "[(''input1.txt'', ''output1.txt''), (''input2.txt'', ''output2.txt'')]"
  have g: "fst (get_test_case_files (Some two_cases_dir)) = ?pairs" by code_simp
  have l: "\<forall>(inp, outp) \<in> set ?pairs.
      \<not> isl (two_cases_files inp) \<and> \<not> isl (two_cases_files outp)"
    by (simp add: two_cases_files_def file_table_def)
  have o: "{0..<length ?pairs} \<subseteq> set [1, 0 :: nat]" by auto
  have u: "[1..<Suc (length ?pairs)] = [1, 2]" by code_simp
  note T = run_returns_one_result_per_pair [OF g l, of hello_service "[1, 0]"]
  from T [THEN conjunct2, THEN mp, OF o] obtain rr where
    "run_test_cases_from_files (Some two_cases_dir) two_cases_files hello_service [1, 0]
       = Some (Inr rr)"
    "map test_index (results_of rr) = [1..<Suc (length ?pairs)]"
    by blast
  then show ?thesis unfolding u by simp
qed

theorem unreadable_file_counterexample:
  "fst (get_test_case_files (Some two_cases_dir))
     = [(''input1.txt'', ''output1.txt''), (''input2.txt'', ''output2.txt'')]
   \<and> run_test_cases_from_files (Some two_cases_dir) output1_is_directory hello_service [1, 0]
     = Some (Inl (OSError ''[Errno 21] Is a directory: output1.txt''))"
proof -
  have g: "fst (get_test_case_files (Some two_cases_dir))
     = [(''input1.txt'', ''output1.txt''), (''input2.txt'', ''output2.txt'')]" by code_simp
  have r: "run_test_cases_from_files (Some two_cases_dir) output1_is_directory hello_service [1, 0]
     = Some (Inl (OSError ''[Errno 21] Is a directory: output1.txt''))"
    by code_simp
  show ?thesis by (intro conjI g r)
qed

text \<open>
  C6, amended.  \<^verbatim>\<open>process_single_test_case\<close> raises exactly when one of its two files
  fails to load, whatever the service does: every failure of the execution is in the
  record it returns.  When the files of every discovered pair load, each case yields its
  record.  When a file of some pair fails to load, \<^verbatim>\<open>run_test_cases_from_files\<close> raises
  the error of such a file and returns no record, for any case.
\<close>

theorem file_error_aborts_run:
  assumes "fst (get_test_case_files dir) = test_pairs"
    and "{0..<length test_pairs} \<subseteq> set order"
  shows "(isl (process_single_test_case read_file (srv idx) inp outp idx)
            \<longleftrightarrow> isl (read_file inp) \<or> isl (read_file outp))
    \<and> ((\<forall>(inp, outp) \<in> set test_pairs. \<not> isl (read_file inp) \<and> \<not> isl (read_file outp)) \<longrightarrow>
          (\<exists>rr. run_test_cases_from_files dir read_file srv order = Some (Inr rr)
                \<and> length (results_of rr) = length test_pairs))
    \<and> ((\<exists>(inp, outp) \<in> set test_pairs. isl (read_file inp) \<or> isl (read_file outp)) \<longrightarrow>
          (\<exists>e. run_test_cases_from_files dir read_file srv order = Some (Inl e)
               \<and> (\<exists>(inp, outp) \<in> set test_pairs. read_file inp = Inl e \<or> read_file outp = Inl e)))"
proof -
  have a: "isl (process_single_test_case read_file (srv idx) inp outp idx)
            \<longleftrightarrow> isl (read_file inp) \<or> isl (read_file outp)"
    by (rule process_single_test_case_isl)
  have b: "(\<forall>(inp, outp) \<in> set test_pairs. \<not> isl (read_file inp) \<and> \<not> isl (read_file outp)) \<longrightarrow>
          (\<exists>rr. run_test_cases_from_files dir read_file srv order = Some (Inr rr)
                \<and> length (results_of rr) = length test_pairs)"
  proof
    assume "\<forall>(inp, outp) \<in> set test_pairs. \<not> isl (read_file inp) \<and> \<not> isl (read_file outp)"
    from run_all_loaded[OF assms(1) this assms(2), of srv]
    show "\<exists>rr. run_test_cases_from_files dir read_file srv order = Some (Inr rr)
                \<and> length (results_of rr) = length test_pairs" by blast
  qed
  have c: "(\<exists>(inp, outp) \<in> set test_pairs. isl (read_file inp) \<or> isl (read_file outp)) \<longrightarrow>
          (\<exists>e. run_test_cases_from_files dir read_file srv order = Some (Inl e)
               \<and> (\<exists>(inp, outp) \<in> set test_pairs. read_file inp = Inl e \<or> read_file outp = Inl e))"
    using run_some_unreadable[OF assms] by blast
  show ?thesis by (intro conjI a b c)
qed

theorem file_error_aborts_run_witness:
  "map_option isl
     (run_test_cases_from_files (Some two_cases_dir) unreadable_input2 hello_service [1, 0])
   = Some True"
proof -
  let ?pairs = "[(''input1.txt'', ''output1.txt''), (''input2.txt'', ''output2.txt'')]"
  have g: "fst (get_test_case_files (Some two_cases_dir)) = ?pairs" by code_simp
  have o: "{0..<length ?pairs} \<subseteq> set [1, 0 :: nat]" by auto
  have f: "\<exists>(inp, outp) \<in> set ?pairs.
      isl (unreadable_input2 inp) \<or> isl (unreadable_input2 outp)"
    by (simp add: unreadable_input2_def)
  from file_error_aborts_run [OF g o, of unreadable_input2 hello_service]
  have "\<exists>e. run_test_cases_from_files (Some two_cases_dir) unreadable_input2 hello_service [1, 0]
       = Some (Inl e)"
    using f by blast
  then show ?thesis by auto
qed

theorem file_error_counterexample:
  "run_test_cases_from_files (Some two_cases_dir) unreadable_input2 hello_service [0, 1]
     = Some (Inl (OSError ''[Errno 13] Permission denied: input2.txt''))
   \<and> \<not> isl (process_single_test_case unreadable_input2 (hello_service 1)
              ''input1.txt'' ''output1.txt'' 1)"
proof -
  have "run_test_cases_from_files (Some two_cases_dir) unreadable_input2 hello_service [0, 1]
     = Some (Inl (OSError ''[Errno 13] Permission denied: input2.txt''))"
    by code_simp
  moreover have "\<not> isl (process_single_test_case unreadable_input2 (hello_service 1)
              ''input1.txt'' ''output1.txt'' 1)"
    by (simp add: process_single_test_case_isl unreadable_input2_def two_cases_files_def
        file_table_def)
  ultimately show ?thesis by simp
qed

section \<open>Permits and spacing in the schedules\<close>

lemma length_filter_update:
  assumes "i < length xs"
  shows "length (filter P (xs[i := y])) + (if P (xs ! i) then 1 else 0)
       = length (filter P xs) + (if P y then 1 else 0)"
  using assms
proof (induction xs arbitrary: i)
  case Nil
  then show ?case by simp
next
  case (Cons x xs)
  show ?case
  proof (cases i)
    case 0
    then show ?thesis by simp
  next
    case (Suc j)
    then have "j < length xs" using Cons.prems by simp
    from Cons.IH[OF this] Suc show ?thesis by simp
  qed
qed

lemma sched_step_permits:
  assumes "sched_step min_delay e s = Some s'"
  shows "holding s' + permits s' = holding s + permits s"
    and "length (tasks s') = length (tasks s)"
proof -
  let ?P = "\<lambda>t. t \<noteq> Pending \<and> t \<noteq> Finished"
  show "holding s' + permits s' = holding s + permits s"
  proof (cases e)
    case (Advance d)
    with assms show ?thesis by (auto simp: holding_def split: if_splits)
  next
    case (Enter i)
    with assms have i: "i < length (tasks s)" "tasks s ! i = Pending" "0 < permits s"
      by (auto split: if_splits)
    from assms Enter i have p: "permits s' = permits s - 1"
      by (auto simp: dispatch_def Let_def split: option.splits if_splits)
    from assms Enter i have "tasks s' = (tasks s)[i := InFlight]
        \<or> (\<exists>u. tasks s' = (tasks s)[i := Sleeping u])"
      by (auto simp: dispatch_def Let_def split: option.splits if_splits)
    then obtain t where t: "?P t" "tasks s' = (tasks s)[i := t]" by auto
    from length_filter_update[OF i(1), of ?P t] i(2) t(1)
    have "length (filter ?P ((tasks s)[i := t])) = Suc (length (filter ?P (tasks s)))" by simp
    then show ?thesis using t p i(3) by (simp add: holding_def)
  next
    case (Wake i)
    with assms obtain u where i: "i < length (tasks s)" "tasks s ! i = Sleeping u"
      by (auto split: if_splits task_state.splits)
    from assms Wake i have t: "tasks s' = (tasks s)[i := InFlight]" "permits s' = permits s"
      by (auto simp: dispatch_def split: if_splits)
    from length_filter_update[OF i(1), of ?P InFlight] i(2)
    have "length (filter ?P ((tasks s)[i := InFlight])) = length (filter ?P (tasks s))" by simp
    then show ?thesis using t by (simp add: holding_def)
  next
    case (Complete i)
    with assms have i: "i < length (tasks s)" "tasks s ! i = InFlight"
      by (auto split: if_splits)
    from assms Complete i have t: "tasks s' = (tasks s)[i := Finished]"
      "permits s' = permits s + 1"
      by (auto split: if_splits)
    from length_filter_update[OF i(1), of ?P Finished] i(2)
    have "Suc (length (filter ?P ((tasks s)[i := Finished]))) = length (filter ?P (tasks s))"
      by simp
    then show ?thesis using t by (simp add: holding_def)
  qed
  show "length (tasks s') = length (tasks s)"
    using assms
    by (cases e) (auto simp: dispatch_def Let_def split: if_splits option.splits task_state.splits)
qed

lemma sched_run_permits:
  assumes "sched_run min_delay es s = Some s'"
  shows "holding s' + permits s' = holding s + permits s"
  using assms
proof (induction es arbitrary: s)
  case Nil
  then show ?case by simp
next
  case (Cons e es)
  then obtain s1 where s1: "sched_step min_delay e s = Some s1"
    "sched_run min_delay es s1 = Some s'"
    by (auto split: option.splits)
  from Cons.IH[OF s1(2)] sched_step_permits(1)[OF s1(1)] show ?case by simp
qed

lemma holding_bounded:
  assumes "sched_run min_delay es (initial_sched max_concurrent n) = Some s"
  shows "holding s \<le> max_concurrent"
proof -
  have "holding (initial_sched max_concurrent n) = 0"
    by (simp add: holding_def initial_sched_def)
  with sched_run_permits[OF assms] show ?thesis by (simp add: initial_sched_def)
qed

section \<open>One permit\<close>

lemma spaced_snoc:
  "spaced d (ts @ [t]) \<longleftrightarrow> spaced d ts \<and> (ts = [] \<or> d \<le> t - last ts)"
  by (induction d ts rule: spaced.induct) auto

lemma exclusive_initial: "exclusive_inv min_delay (initial_sched 1 n)"
  by (simp add: exclusive_inv_def initial_sched_def idle_def)

lemma exclusive_advance:
  assumes "exclusive_inv md s" "sched_step md (Advance d) s = Some s'"
  shows "exclusive_inv md s'"
proof -
  from assms(2) have d: "0 \<le> d" and s': "s' = s\<lparr>now := now s + d\<rparr>"
    by (auto split: if_splits)
  show ?thesis
    using assms(1) d unfolding s' exclusive_inv_def Let_def
    by (auto intro: order_trans)
qed

lemma exclusive_invD:
  assumes "exclusive_inv md s"
  shows "spaced md (map snd (dispatched s))"
    and "\<forall>t \<in> set (map snd (dispatched s)). t \<le> now s"
    and "\<forall>i < length (tasks s). \<forall>u. tasks s ! i = Sleeping u \<longrightarrow>
           map snd (dispatched s) = [] \<or> md \<le> u - last (map snd (dispatched s))"
    and "(permits s = 1 \<and> (\<forall>i < length (tasks s). idle (tasks s ! i))
           \<and> (map snd (dispatched s) = []
               \<or> (\<exists>l. last_request_time s = Some l \<and> last (map snd (dispatched s)) \<le> l
                      \<and> l \<le> now s)))
         \<or> (permits s = 0
             \<and> (\<exists>i < length (tasks s). \<not> idle (tasks s ! i)
                   \<and> (\<forall>j < length (tasks s). j \<noteq> i \<longrightarrow> idle (tasks s ! j))))"
  using assms unfolding exclusive_inv_def Let_def by blast+

lemma exclusive_invI:
  assumes "spaced md (map snd (dispatched s))"
    and "\<forall>t \<in> set (map snd (dispatched s)). t \<le> now s"
    and "\<forall>i < length (tasks s). \<forall>u. tasks s ! i = Sleeping u \<longrightarrow>
           map snd (dispatched s) = [] \<or> md \<le> u - last (map snd (dispatched s))"
    and "(permits s = 1 \<and> (\<forall>i < length (tasks s). idle (tasks s ! i))
           \<and> (map snd (dispatched s) = []
               \<or> (\<exists>l. last_request_time s = Some l \<and> last (map snd (dispatched s)) \<le> l
                      \<and> l \<le> now s)))
         \<or> (permits s = 0
             \<and> (\<exists>i < length (tasks s). \<not> idle (tasks s ! i)
                   \<and> (\<forall>j < length (tasks s). j \<noteq> i \<longrightarrow> idle (tasks s ! j))))"
  shows "exclusive_inv md s"
  using assms unfolding exclusive_inv_def Let_def by blast

lemma holder_after_update:
  assumes "i < length ts" "\<forall>j < length ts. j \<noteq> i \<longrightarrow> idle (ts ! j)" "\<not> idle t"
  shows "\<exists>k < length (ts[i := t]). \<not> idle (ts[i := t] ! k)
           \<and> (\<forall>j < length (ts[i := t]). j \<noteq> k \<longrightarrow> idle (ts[i := t] ! j))"
  using assms by (intro exI[of _ i]) simp

lemma idle_after_update:
  assumes "\<forall>j < length ts. j \<noteq> i \<longrightarrow> idle (ts ! j)" "idle t"
  shows "\<forall>j < length (ts[i := t]). idle (ts[i := t] ! j)"
proof (intro allI impI)
  fix j assume "j < length (ts[i := t])"
  then show "idle (ts[i := t] ! j)" using assms by (cases "j = i") simp_all
qed

lemma exclusive_complete:
  assumes "exclusive_inv md s" "sched_step md (Complete i) s = Some s'"
  shows "exclusive_inv md s'"
proof -
  note I = exclusive_invD[OF assms(1)]
  from assms(2) have i: "i < length (tasks s)" "tasks s ! i = InFlight"
    and s': "s' = s\<lparr>tasks := (tasks s)[i := Finished], last_request_time := Some (now s),
                    permits := permits s + 1\<rparr>"
    by (auto split: if_splits)
  have busy: "\<not> idle (tasks s ! i)" using i(2) by (simp add: idle_def)
  with I(4) i(1) have p: "permits s = 0"
    and others: "\<forall>j < length (tasks s). j \<noteq> i \<longrightarrow> idle (tasks s ! j)"
    by auto
  have all: "\<forall>j < length (tasks s'). idle (tasks s' ! j)"
    unfolding s' using idle_after_update[OF others, of Finished] by (simp add: idle_def)
  have sl: "\<forall>j < length (tasks s'). \<forall>u. tasks s' ! j = Sleeping u \<longrightarrow>
           map snd (dispatched s') = [] \<or> md \<le> u - last (map snd (dispatched s'))"
    using all by (auto simp: idle_def)
  have lst: "map snd (dispatched s') = []
      \<or> (\<exists>l. last_request_time s' = Some l \<and> last (map snd (dispatched s')) \<le> l \<and> l \<le> now s')"
    unfolding s' using I(2) by (cases "dispatched s" rule: rev_cases) auto
  show ?thesis
  proof (rule exclusive_invI)
    show "spaced md (map snd (dispatched s'))" unfolding s' using I(1) by simp
    show "\<forall>t \<in> set (map snd (dispatched s')). t \<le> now s'" unfolding s' using I(2) by simp
    show "\<forall>j < length (tasks s'). \<forall>u. tasks s' ! j = Sleeping u \<longrightarrow>
           map snd (dispatched s') = [] \<or> md \<le> u - last (map snd (dispatched s'))"
      by (rule sl)
    have "permits s' = 1" unfolding s' using p by simp
    then show "(permits s' = 1 \<and> (\<forall>i < length (tasks s'). idle (tasks s' ! i))
           \<and> (map snd (dispatched s') = []
               \<or> (\<exists>l. last_request_time s' = Some l \<and> last (map snd (dispatched s')) \<le> l
                      \<and> l \<le> now s')))
         \<or> (permits s' = 0
             \<and> (\<exists>i < length (tasks s'). \<not> idle (tasks s' ! i)
                   \<and> (\<forall>j < length (tasks s'). j \<noteq> i \<longrightarrow> idle (tasks s' ! j))))"
      using all lst by blast
  qed
qed

lemma not_sleeping_after_update:
  assumes "\<forall>j < length ts. j \<noteq> i \<longrightarrow> idle (ts ! j)" "j < length (ts[i := InFlight])"
  shows "ts[i := InFlight] ! j \<noteq> Sleeping u"
proof (cases "j = i")
  case True
  then show ?thesis using assms(2) by simp
next
  case False
  then have "idle (ts ! j)" using assms by simp
  then show ?thesis using False by (auto simp: idle_def)
qed

lemma exclusive_dispatch:
  assumes "spaced md (map snd (dispatched s))"
    and "\<forall>t \<in> set (map snd (dispatched s)). t \<le> now s"
    and "map snd (dispatched s) = [] \<or> md \<le> now s - last (map snd (dispatched s))"
    and "i < length (tasks s)"
    and "\<forall>j < length (tasks s). j \<noteq> i \<longrightarrow> idle (tasks s ! j)"
    and "permits s = 0"
  shows "exclusive_inv md (dispatch i s)"
proof (rule exclusive_invI)
  have log: "map snd (dispatched (dispatch i s)) = map snd (dispatched s) @ [now s]"
    by (simp add: dispatch_def)
  have t: "tasks (dispatch i s) = (tasks s)[i := InFlight]" by (simp add: dispatch_def)
  have n: "now (dispatch i s) = now s" by (simp add: dispatch_def)
  show "spaced md (map snd (dispatched (dispatch i s)))"
    unfolding log spaced_snoc using assms(1,3) by simp
  show "\<forall>t \<in> set (map snd (dispatched (dispatch i s))). t \<le> now (dispatch i s)"
    unfolding log n using assms(2) by simp
  show "\<forall>j < length (tasks (dispatch i s)). \<forall>u. tasks (dispatch i s) ! j = Sleeping u \<longrightarrow>
      map snd (dispatched (dispatch i s)) = []
      \<or> md \<le> u - last (map snd (dispatched (dispatch i s)))"
    unfolding t using not_sleeping_after_update[OF assms(5)] by blast
  have "\<not> idle InFlight" by (simp add: idle_def)
  from holder_after_update[OF assms(4,5) this]
  have "\<exists>k < length (tasks (dispatch i s)). \<not> idle (tasks (dispatch i s) ! k)
      \<and> (\<forall>j < length (tasks (dispatch i s)). j \<noteq> k \<longrightarrow> idle (tasks (dispatch i s) ! j))"
    unfolding t .
  moreover have "permits (dispatch i s) = 0" using assms(6) by (simp add: dispatch_def)
  ultimately show "(permits (dispatch i s) = 1
        \<and> (\<forall>j < length (tasks (dispatch i s)). idle (tasks (dispatch i s) ! j))
        \<and> (map snd (dispatched (dispatch i s)) = []
            \<or> (\<exists>l. last_request_time (dispatch i s) = Some l
                   \<and> last (map snd (dispatched (dispatch i s))) \<le> l
                   \<and> l \<le> now (dispatch i s))))
      \<or> (permits (dispatch i s) = 0
          \<and> (\<exists>k < length (tasks (dispatch i s)). \<not> idle (tasks (dispatch i s) ! k)
                \<and> (\<forall>j < length (tasks (dispatch i s)). j \<noteq> k \<longrightarrow>
                      idle (tasks (dispatch i s) ! j))))"
    by blast
qed

lemma exclusive_wake:
  assumes "exclusive_inv md s" "sched_step md (Wake i) s = Some s'"
  shows "exclusive_inv md s'"
proof -
  note I = exclusive_invD[OF assms(1)]
  from assms(2) obtain u where i: "i < length (tasks s)" "tasks s ! i = Sleeping u" "u \<le> now s"
    and s': "s' = dispatch i s"
    by (auto split: if_splits task_state.splits)
  have busy: "\<not> idle (tasks s ! i)" using i(2) by (simp add: idle_def)
  with I(4) i(1) have p: "permits s = 0"
    and others: "\<forall>j < length (tasks s). j \<noteq> i \<longrightarrow> idle (tasks s ! j)"
    by auto
  from I(3) i(1,2) have "map snd (dispatched s) = [] \<or> md \<le> u - last (map snd (dispatched s))"
    by blast
  then have gap: "map snd (dispatched s) = [] \<or> md \<le> now s - last (map snd (dispatched s))"
    using i(3) by auto
  show ?thesis unfolding s' by (rule exclusive_dispatch[OF I(1,2) gap i(1) others p])
qed

lemma exclusive_enter:
  assumes "exclusive_inv md s" "sched_step md (Enter i) s = Some s'"
  shows "exclusive_inv md s'"
proof -
  note I = exclusive_invD[OF assms(1)]
  from assms(2) have i: "i < length (tasks s)" "tasks s ! i = Pending" "0 < permits s"
    by (auto split: if_splits)
  define s1 where "s1 = s\<lparr>permits := permits s - 1\<rparr>"
  from I(4) i(3) have p: "permits s = 1"
    and all: "\<forall>j < length (tasks s). idle (tasks s ! j)"
    and lst: "map snd (dispatched s) = []
        \<or> (\<exists>l. last_request_time s = Some l \<and> last (map snd (dispatched s)) \<le> l \<and> l \<le> now s)"
    by auto
  have f: "dispatched s1 = dispatched s" "now s1 = now s" "tasks s1 = tasks s"
    "permits s1 = 0" "last_request_time s1 = last_request_time s"
    unfolding s1_def using p by simp_all
  have others: "\<forall>j < length (tasks s1). j \<noteq> i \<longrightarrow> idle (tasks s1 ! j)"
    unfolding f using all by simp
  have step: "s' = (case last_request_time s of
                 None \<Rightarrow> dispatch i s1
               | Some last_time \<Rightarrow>
                   if now s - last_time < md
                   then s1\<lparr>tasks := (tasks s)[i := Sleeping (now s + (md - (now s - last_time)))]\<rparr>
                   else dispatch i s1)"
    using assms(2) i unfolding s1_def by (auto simp: Let_def split: option.splits if_splits)
  show ?thesis
  proof (cases "last_request_time s")
    case None
    then have "map snd (dispatched s1) = []" using lst f by simp
    then have gap: "map snd (dispatched s1) = []
        \<or> md \<le> now s1 - last (map snd (dispatched s1))" by simp
    have "exclusive_inv md (dispatch i s1)"
      using I(1,2) i(1) by (intro exclusive_dispatch gap others) (simp_all add: f)
    then show ?thesis using step None by simp
  next
    case (Some l)
    have ll: "map snd (dispatched s) = [] \<or> last (map snd (dispatched s)) \<le> l"
      using lst Some by auto
    show ?thesis
    proof (cases "now s - l < md")
      case False
      then have gap: "map snd (dispatched s1) = []
          \<or> md \<le> now s1 - last (map snd (dispatched s1))"
        unfolding f using ll by auto
      have "exclusive_inv md (dispatch i s1)"
        using I(1,2) i(1) by (intro exclusive_dispatch gap others) (simp_all add: f)
      then show ?thesis using step Some False by simp
    next
      case True
      let ?u = "now s + (md - (now s - l))"
      have s': "s' = s1\<lparr>tasks := (tasks s)[i := Sleeping ?u]\<rparr>"
        using step Some True by simp
      have u: "map snd (dispatched s) = [] \<or> md \<le> ?u - last (map snd (dispatched s))"
        using ll by auto
      have ns: "\<not> idle (Sleeping ?u)" by (simp add: idle_def)
      show ?thesis
      proof (rule exclusive_invI)
        show "spaced md (map snd (dispatched s'))" unfolding s' using I(1) f by simp
        show "\<forall>t \<in> set (map snd (dispatched s')). t \<le> now s'"
          unfolding s' using I(2) f by simp
        show "\<forall>j < length (tasks s'). \<forall>v. tasks s' ! j = Sleeping v \<longrightarrow>
            map snd (dispatched s') = [] \<or> md \<le> v - last (map snd (dispatched s'))"
        proof (intro allI impI)
          fix j v assume j: "j < length (tasks s')" "tasks s' ! j = Sleeping v"
          show "map snd (dispatched s') = [] \<or> md \<le> v - last (map snd (dispatched s'))"
          proof (cases "j = i")
            case True
            then have "v = ?u" using j i(1) unfolding s' by simp
            then show ?thesis using u unfolding s' by (simp add: f)
          next
            case False
            then have "tasks s ! j = Sleeping v" using j unfolding s' by simp
            moreover have "idle (tasks s ! j)" using all j(1) unfolding s' by simp
            ultimately show ?thesis by (simp add: idle_def)
          qed
        qed
        have "\<forall>j < length (tasks s). j \<noteq> i \<longrightarrow> idle (tasks s ! j)" using all by simp
        from holder_after_update[OF i(1) this ns]
        have "\<exists>k < length (tasks s'). \<not> idle (tasks s' ! k)
            \<and> (\<forall>j < length (tasks s'). j \<noteq> k \<longrightarrow> idle (tasks s' ! j))"
          unfolding s' by simp
        moreover have "permits s' = 0" unfolding s' using f by simp
        ultimately show "(permits s' = 1 \<and> (\<forall>i < length (tasks s'). idle (tasks s' ! i))
            \<and> (map snd (dispatched s') = []
                \<or> (\<exists>l. last_request_time s' = Some l \<and> last (map snd (dispatched s')) \<le> l
                       \<and> l \<le> now s')))
          \<or> (permits s' = 0
              \<and> (\<exists>k < length (tasks s'). \<not> idle (tasks s' ! k)
                    \<and> (\<forall>j < length (tasks s'). j \<noteq> k \<longrightarrow> idle (tasks s' ! j))))"
          by blast
      qed
    qed
  qed
qed

lemma exclusive_step:
  assumes "exclusive_inv md s" "sched_step md e s = Some s'"
  shows "exclusive_inv md s'"
  using assms exclusive_advance exclusive_enter exclusive_wake exclusive_complete
  by (cases e) blast+

lemma exclusive_run:
  assumes "exclusive_inv md s" "sched_run md es s = Some s'"
  shows "exclusive_inv md s'"
  using assms
proof (induction es arbitrary: s)
  case Nil
  then show ?case by simp
next
  case (Cons e es)
  then obtain s1 where s1: "sched_step md e s = Some s1" "sched_run md es s1 = Some s'"
    by (auto split: option.splits)
  from Cons.IH[OF exclusive_step[OF Cons.prems(1) s1(1)] s1(2)] show ?case .
qed

lemma one_permit_spaced:
  assumes "sched_run min_delay es (initial_sched 1 n) = Some s"
  shows "spaced min_delay (map snd (dispatched s))"
  using exclusive_run[OF exclusive_initial assms] by (rule exclusive_invD(1))

lemma spaced_from_head:
  assumes "0 \<le> d" "spaced d (t # ts)"
  shows "\<forall>u \<in> set ts. d \<le> u - t"
  using assms(2)
proof (induction ts arbitrary: t)
  case Nil
  then show ?case by simp
next
  case (Cons v ts)
  then have "d \<le> v - t" "spaced d (v # ts)" by simp_all
  with Cons.IH[of v] assms(1) show ?case by fastforce
qed

lemma spaced_any_two:
  assumes "0 \<le> d" "spaced d ts" "i < j" "j < length ts"
  shows "d \<le> ts ! j - ts ! i"
  using assms(2-)
proof (induction ts arbitrary: i j)
  case Nil
  then show ?case by simp
next
  case (Cons t ts)
  have tl: "spaced d ts" using Cons.prems(1) by (cases ts) simp_all
  obtain j' where j': "j = Suc j'" using Cons.prems(2) by (cases j) auto
  show ?case
  proof (cases i)
    case 0
    have "ts ! j' \<in> set ts" using Cons.prems(3) j' by simp
    with spaced_from_head[OF assms(1) Cons.prems(1)] show ?thesis using 0 j' by simp
  next
    case (Suc i')
    with Cons.IH[OF tl, of i' j'] Cons.prems j' show ?thesis by simp
  qed
qed

text \<open>
  C5.  With the default ten permits and a spacing of one twentieth of a second, two tasks
  enter the semaphore one millisecond apart; \<^verbatim>\<open>last_request_time[0]\<close> is still \<^verbatim>\<open>None\<close>
  for the second, since the first has not returned, so both call \<^verbatim>\<open>run_test_case\<close> at
  once: the two calls are one millisecond apart, not spaced, and both tasks hold a
  permit.
\<close>

theorem two_dispatches_within_min_delay:
  "map_option dispatched
     (sched_run (1 / 20) [Enter 0, Advance (1 / 1000), Enter 1] (initial_sched 10 2))
     = Some [(0, 0), (1, 1 / 1000)]
   \<and> \<not> spaced (1 / 20) (map snd [(0 :: nat, 0), (1, 1 / 1000)])
   \<and> map_option holding
       (sched_run (1 / 20) [Enter 0, Advance (1 / 1000), Enter 1] (initial_sched 10 2))
     = Some 2"
  by code_simp

end
